theory Spec2Isabelle
  imports Complex_Main "HOL-Library.AList"
begin

section \<open>Data model (\<^verbatim>\<open>types.ts\<close>, \<^verbatim>\<open>App.tsx\<close>)\<close>

text \<open>
  The client of the driving-log viewer is a single React component, \<^verbatim>\<open>App\<close>.
  Its state variables and refs are the fields of one record; every event handler and every
  promise continuation of \<^verbatim>\<open>App.tsx\<close> is a function from state to state.

  JavaScript numbers that carry a zoom level or a coordinate are modelled as reals
  (comparison and \<^verbatim>\<open>Math.max\<close> agree with the reals on every number that is not NaN);
  counters and offsets are naturals (the request counter is exact below \<open>2^53\<close>).
  A JavaScript \<^verbatim>\<open>Map\<close> is an association list in insertion order with distinct keys
  (\<^verbatim>\<open>get\<close> is \<^const>\<open>map_of\<close>, \<^verbatim>\<open>set\<close> is \<^const>\<open>AList.update\<close>: an existing key
  keeps its place, a new key goes to the end); a JavaScript \<^verbatim>\<open>Set\<close> that is iterated is a
  list in insertion order.
\<close>

record BoundingBox =
  min_lat :: real
  min_lon :: real
  max_lat :: real
  max_lon :: real

record TrajectoryPoint =
  lat :: real
  lon :: real

record DrivingLogListItem =
  log_id :: string
  num_points :: "nat option"
  bounds :: "BoundingBox option"

record DrivingLogDetail = DrivingLogListItem +
  trajectory :: "TrajectoryPoint list"

text \<open>The answer of \<^verbatim>\<open>fetchLogs\<close>, as \<^verbatim>\<open>loadLogs\<close> reads it.\<close>

record DrivingLogListResponse =
  items :: "DrivingLogListItem list"
  total :: nat
  next_offset :: "nat option"

record LogState =
  summary :: DrivingLogListItem
  detail :: "DrivingLogDetail option"
  loading :: bool
  error :: "string option"

text \<open>
  \<^verbatim>\<open>PreviewState\<close>; its fields \<^verbatim>\<open>loading\<close> and \<^verbatim>\<open>error\<close> are prefixed, the names being
  taken by \<^verbatim>\<open>LogState\<close>.
\<close>

record PreviewState =
  logId :: string
  imageUrl :: "string option"
  preview_loading :: bool
  preview_error :: "string option"

text \<open>
  The state of \<^verbatim>\<open>App\<close>: the \<^verbatim>\<open>useState\<close> variables and the two \<^verbatim>\<open>useRef\<close> cells of the
  preview, followed by what the component has done to its environment: the object URLs it
  has revoked, and the promises of \<^verbatim>\<open>fetchLogs\<close>, \<^verbatim>\<open>fetchLogDetail\<close> and \<^verbatim>\<open>fetchLogImage\<close>
  that are still unsettled (with, for the image fetch, the request id its continuation
  captured). \<^verbatim>\<open>fetchLogDetailCalls\<close> lists every call of \<^verbatim>\<open>fetchLogDetail\<close> ever made.
\<close>

record AppState =
  logState :: "(string \<times> LogState) list"
  logOrder :: "string list"
  activeLogs :: "string list"
  app_error :: "string option"
  isLoadingSummaries :: bool
  isLoadingMore :: bool
  totalLogs :: "nat option"
  nextOffset :: "nat option"
  panelOpen :: bool
  lastActivatedLog :: "string option"
  currentZoom :: real
  hoveredLogId :: "string option"
  isPreviewOpen :: bool
  previewState :: "PreviewState option"
  previewImageUrlRef :: "string option"
  previewRequestIdRef :: nat
  revokedUrls :: "string list"
  pendingLogs :: "nat list"
  pendingDetail :: "string list"
  fetchLogDetailCalls :: "string list"
  pendingImage :: "(nat \<times> string) list"

definition DEFAULT_ZOOM :: real where
  "DEFAULT_ZOOM = 14"

definition DISPLAY_ZOOM_THRESHOLD :: real where
  "DISPLAY_ZOOM_THRESHOLD = 14"

definition LOGS_PAGE_SIZE :: nat where
  "LOGS_PAGE_SIZE = 50"

definition COLORS :: "string list" where
  "COLORS = [''#ef4444'', ''#22c55e'', ''#3b82f6'', ''#a855f7'', ''#f59e0b'', ''#14b8a6'',
     ''#8b5cf6'']"

subsection \<open>JavaScript sets and truthiness\<close>

definition set_add :: "'a \<Rightarrow> 'a list \<Rightarrow> 'a list" where
  "set_add x xs = (if x \<in> set xs then xs else xs @ [x])"

definition set_delete :: "'a \<Rightarrow> 'a list \<Rightarrow> 'a list" where
  "set_delete x xs = removeAll x xs"

definition new_Set :: "'a list \<Rightarrow> 'a list" where
  "new_Set xs = fold set_add xs []"

text \<open>A value of type \<^verbatim>\<open>string | null | undefined\<close> is truthy when it is a non-empty string.\<close>

definition truthy :: "string option \<Rightarrow> bool" where
  "truthy v = (case v of None \<Rightarrow> False | Some str \<Rightarrow> str \<noteq> [])"

section \<open>Pagination: \<^verbatim>\<open>loadLogs\<close>\<close>

text \<open>
  The body of the \<^verbatim>\<open>forEach\<close> inside the \<^verbatim>\<open>setLogState\<close> updater: an identifier that
  has a record keeps it, with the summary replaced; a new one gets a fresh record.
\<close>

definition mergeItem :: "DrivingLogListItem \<Rightarrow> (string \<times> LogState) list \<Rightarrow> (string \<times> LogState) list" where
  "mergeItem lg base =
     (case map_of base (log_id lg) of
        Some existing \<Rightarrow> AList.update (log_id lg) (existing\<lparr>summary := lg\<rparr>) base
      | None \<Rightarrow>
          AList.update (log_id lg)
            \<lparr>summary = lg, detail = None, loading = False, error = None\<rparr> base)"

definition mergeLogState ::
  "bool \<Rightarrow> DrivingLogListItem list \<Rightarrow> (string \<times> LogState) list \<Rightarrow> (string \<times> LogState) list" where
  "mergeLogState isInitial its prev = fold mergeItem its (if isInitial then [] else prev)"

text \<open>
  The body of the \<^verbatim>\<open>forEach\<close> inside the \<^verbatim>\<open>setLogOrder\<close> updater, on the pair of the
  \<^verbatim>\<open>seen\<close> set and the \<^verbatim>\<open>appended\<close> array.
\<close>

definition visit :: "DrivingLogListItem \<Rightarrow> string set \<times> string list \<Rightarrow> string set \<times> string list" where
  "visit lg acc =
     (case acc of (seen, appended) \<Rightarrow>
        if log_id lg \<in> seen then (seen, appended)
        else (insert (log_id lg) seen, appended @ [log_id lg]))"

definition mergeLogOrder :: "bool \<Rightarrow> DrivingLogListItem list \<Rightarrow> string list \<Rightarrow> string list" where
  "mergeLogOrder isInitial its prev =
     (let baseOrder = (if isInitial then [] else prev);
          appended = snd (fold visit its (set baseOrder, []))
      in if isInitial then appended else baseOrder @ appended)"

text \<open>\<^verbatim>\<open>loadLogs(offset)\<close> up to its \<^verbatim>\<open>await\<close>: the flags are set and the request leaves.\<close>

definition loadLogs_begin :: "nat \<Rightarrow> AppState \<Rightarrow> AppState" where
  "loadLogs_begin offset s =
     (let s1 = (if offset = 0 then s\<lparr>isLoadingSummaries := True, app_error := None\<rparr>
                else s\<lparr>isLoadingMore := True\<rparr>)
      in s1\<lparr>pendingLogs := pendingLogs s1 @ [offset]\<rparr>)"

text \<open>The \<^verbatim>\<open>finally\<close> block of \<^verbatim>\<open>loadLogs\<close>.\<close>

definition loadLogs_finally :: "nat \<Rightarrow> AppState \<Rightarrow> AppState" where
  "loadLogs_finally offset s =
     (if offset = 0 then s\<lparr>isLoadingSummaries := False\<rparr> else s\<lparr>isLoadingMore := False\<rparr>)"

text \<open>\<^verbatim>\<open>loadLogs(offset)\<close> after the \<^verbatim>\<open>await\<close>, when \<^verbatim>\<open>fetchLogs\<close> resolved.\<close>

definition loadLogs_resolved :: "nat \<Rightarrow> DrivingLogListResponse \<Rightarrow> AppState \<Rightarrow> AppState" where
  "loadLogs_resolved offset response s =
     loadLogs_finally offset
       (s\<lparr>totalLogs := Some (total response),
          nextOffset := next_offset response,
          app_error := None,
          logState := mergeLogState (offset = 0) (items response) (logState s),
          logOrder := mergeLogOrder (offset = 0) (items response) (logOrder s)\<rparr>)"

text \<open>
  \<^verbatim>\<open>loadLogs(offset)\<close> after the \<^verbatim>\<open>await\<close>, when \<^verbatim>\<open>fetchLogs\<close> rejected; \<open>msg\<close> is
  \<^verbatim>\<open>err instanceof Error ? err.message : String(err)\<close>.
\<close>

definition loadLogs_rejected :: "nat \<Rightarrow> string \<Rightarrow> AppState \<Rightarrow> AppState" where
  "loadLogs_rejected offset msg s = loadLogs_finally offset (s\<lparr>app_error := Some msg\<rparr>)"

text \<open>The \<^verbatim>\<open>onClick\<close> of the load-more button.\<close>

definition onLoadMoreClick :: "AppState \<Rightarrow> AppState" where
  "onLoadMoreClick s =
     (case nextOffset s of
        None \<Rightarrow> s
      | Some offset \<Rightarrow> if \<not> isLoadingMore s then loadLogs_begin offset s else s)"

section \<open>Detail fetches\<close>

text \<open>
  The \<^verbatim>\<open>setLogState\<close> updater that the effect on \<^verbatim>\<open>activeLogs\<close> queues for one identifier.
  It returns the previous state when the record is missing, has its detail or is loading;
  otherwise it marks the record as loading and calls \<^verbatim>\<open>fetchLogDetail\<close>.
\<close>

definition requestDetail :: "string \<Rightarrow> AppState \<Rightarrow> AppState" where
  "requestDetail lid s =
     (case map_of (logState s) lid of
        None \<Rightarrow> s
      | Some entry \<Rightarrow>
          if detail entry \<noteq> None \<or> loading entry then s
          else s\<lparr>logState := AList.update lid (entry\<lparr>loading := True\<rparr>) (logState s),
                 pendingDetail := pendingDetail s @ [lid],
                 fetchLogDetailCalls := fetchLogDetailCalls s @ [lid]\<rparr>)"

text \<open>The effect itself: \<^verbatim>\<open>activeLogs.forEach\<close>, the updaters applied in order.\<close>

definition detailEffect :: "AppState \<Rightarrow> AppState" where
  "detailEffect s = fold requestDetail (activeLogs s) s"

text \<open>The \<^verbatim>\<open>then\<close> continuation of \<^verbatim>\<open>fetchLogDetail(logId)\<close>.\<close>

definition detail_resolved :: "string \<Rightarrow> DrivingLogDetail \<Rightarrow> AppState \<Rightarrow> AppState" where
  "detail_resolved lid d s =
     (case map_of (logState s) lid of
        None \<Rightarrow> s
      | Some st \<Rightarrow>
          s\<lparr>logState :=
              AList.update lid (st\<lparr>detail := Some d, loading := False, error := None\<rparr>)
                (logState s)\<rparr>)"

text \<open>The \<^verbatim>\<open>catch\<close> continuation of \<^verbatim>\<open>fetchLogDetail(logId)\<close>.\<close>

definition detail_rejected :: "string \<Rightarrow> string \<Rightarrow> AppState \<Rightarrow> AppState" where
  "detail_rejected lid msg s =
     (case map_of (logState s) lid of
        None \<Rightarrow> s
      | Some st \<Rightarrow>
          s\<lparr>logState :=
              AList.update lid (st\<lparr>loading := False, error := Some msg\<rparr>) (logState s)\<rparr>)"

section \<open>The preview\<close>

text \<open>\<^verbatim>\<open>URL.revokeObjectURL\<close>.\<close>

definition revokeObjectURL :: "string \<Rightarrow> AppState \<Rightarrow> AppState" where
  "revokeObjectURL url s = s\<lparr>revokedUrls := revokedUrls s @ [url]\<rparr>"

text \<open>\<^verbatim>\<open>handlePolylineClick\<close> up to the call of \<^verbatim>\<open>fetchLogImage\<close>.\<close>

definition handlePolylineClick :: "string \<Rightarrow> AppState \<Rightarrow> AppState" where
  "handlePolylineClick lid s =
     (let requestId = previewRequestIdRef s + 1
      in s\<lparr>lastActivatedLog := Some lid,
            isPreviewOpen := True,
            previewRequestIdRef := requestId,
            previewState :=
              Some \<lparr>logId = lid, imageUrl = None, preview_loading = True, preview_error = None\<rparr>,
            pendingImage := pendingImage s @ [(requestId, lid)]\<rparr>)"

text \<open>The \<^verbatim>\<open>then\<close> continuation of \<^verbatim>\<open>fetchLogImage(logId)\<close>, which captured \<open>requestId\<close>.\<close>

definition image_resolved :: "nat \<Rightarrow> string \<Rightarrow> string \<Rightarrow> AppState \<Rightarrow> AppState" where
  "image_resolved requestId lid url s =
     (if previewRequestIdRef s \<noteq> requestId then revokeObjectURL url s
      else
        (let s1 = (case previewImageUrlRef s of
                     Some held \<Rightarrow> if held \<noteq> [] then revokeObjectURL held s else s
                   | None \<Rightarrow> s)
         in s1\<lparr>previewImageUrlRef := Some url,
                previewState :=
                  Some \<lparr>logId = lid, imageUrl = Some url, preview_loading = False,
                        preview_error = None\<rparr>\<rparr>))"

text \<open>
  The statement that \<^verbatim>\<open>closePreview\<close>, the \<^verbatim>\<open>catch\<close> continuation and the unmount effect
  share: revoke the held object URL, if there is one, and forget it.
\<close>

definition releaseHeld :: "AppState \<Rightarrow> AppState" where
  "releaseHeld s =
     (case previewImageUrlRef s of
        Some held \<Rightarrow>
          if held \<noteq> [] then (revokeObjectURL held s)\<lparr>previewImageUrlRef := None\<rparr> else s
      | None \<Rightarrow> s)"

text \<open>The \<^verbatim>\<open>catch\<close> continuation of \<^verbatim>\<open>fetchLogImage(logId)\<close>.\<close>

definition image_rejected :: "nat \<Rightarrow> string \<Rightarrow> string \<Rightarrow> AppState \<Rightarrow> AppState" where
  "image_rejected requestId lid msg s =
     (if previewRequestIdRef s \<noteq> requestId then s
      else (releaseHeld s)\<lparr>previewState :=
              Some \<lparr>logId = lid, imageUrl = None, preview_loading = False,
                    preview_error = Some msg\<rparr>\<rparr>)"

definition closePreview :: "AppState \<Rightarrow> AppState" where
  "closePreview s =
     (releaseHeld (s\<lparr>previewRequestIdRef := previewRequestIdRef s + 1\<rparr>))
       \<lparr>isPreviewOpen := False, previewState := None\<rparr>"

section \<open>The selection\<close>

text \<open>
  The \<^verbatim>\<open>onChange\<close> of the checkbox in the row of \<open>rowId\<close>. The row is rendered from the
  record \<^verbatim>\<open>logState.get(logId)\<close>, and the handler works on that record's
  \<^verbatim>\<open>summary.log_id\<close>; \<open>isChecked\<close> is \<^verbatim>\<open>event.target.checked\<close>.
\<close>

definition onLogCheckboxChange :: "string \<Rightarrow> bool \<Rightarrow> AppState \<Rightarrow> AppState" where
  "onLogCheckboxChange rowId isChecked s =
     (case map_of (logState s) rowId of
        None \<Rightarrow> s
      | Some lg \<Rightarrow>
          (let lid = log_id (summary lg);
               s1 = s\<lparr>activeLogs :=
                       (if isChecked then set_add lid (activeLogs s)
                        else set_delete lid (activeLogs s))\<rparr>;
               s2 = (if isChecked then s1\<lparr>lastActivatedLog := Some lid\<rparr>
                     else if lastActivatedLog s = Some lid then s1\<lparr>lastActivatedLog := None\<rparr>
                     else s1)
           in if \<not> isChecked then
                (let s3 = (if hoveredLogId s = Some lid then s2\<lparr>hoveredLogId := None\<rparr> else s2)
                 in if (case previewState s of Some p \<Rightarrow> logId p = lid | None \<Rightarrow> False)
                    then closePreview s3 else s3)
              else s2))"

text \<open>The \<^verbatim>\<open>onChange\<close> of the select-all checkbox.\<close>

definition onSelectAllChange :: "bool \<Rightarrow> AppState \<Rightarrow> AppState" where
  "onSelectAllChange isChecked s =
     (if isChecked then s\<lparr>activeLogs := new_Set (logOrder s)\<rparr>
      else closePreview (s\<lparr>activeLogs := [], lastActivatedLog := None, hoveredLogId := None\<rparr>))"

section \<open>The viewport\<close>

definition shouldRenderTrajectories :: "AppState \<Rightarrow> bool" where
  "shouldRenderTrajectories s = (currentZoom s \<ge> DISPLAY_ZOOM_THRESHOLD)"

text \<open>One entry of \<^verbatim>\<open>polylineData\<close>.\<close>

record Layer =
  layer_logId :: string
  layer_color :: string
  layer_points :: "(real \<times> real) list"
  layer_detail :: "DrivingLogDetail option"

text \<open>The \<^verbatim>\<open>useMemo\<close> of \<^verbatim>\<open>polylineData\<close>: \<^verbatim>\<open>activeLogs.forEach\<close> with the colour counter.\<close>

fun collectLayers :: "(string \<times> LogState) list \<Rightarrow> nat \<Rightarrow> string list \<Rightarrow> Layer list" where
  "collectLayers ls colorIndex [] = []"
| "collectLayers ls colorIndex (lid # rest) =
     (case map_of ls lid of
        None \<Rightarrow> collectLayers ls colorIndex rest
      | Some entry \<Rightarrow>
          (case detail entry of
             None \<Rightarrow> collectLayers ls colorIndex rest
           | Some d \<Rightarrow>
               if trajectory d \<noteq> [] then
                 \<lparr>layer_logId = lid,
                  layer_color = COLORS ! (colorIndex mod length COLORS),
                  layer_points = map (\<lambda>point. (lat point, lon point)) (trajectory d),
                  layer_detail = Some d\<rparr> # collectLayers ls (colorIndex + 1) rest
               else collectLayers ls colorIndex rest))"

definition polylineData :: "AppState \<Rightarrow> Layer list" where
  "polylineData s = collectLayers (logState s) 0 (activeLogs s)"

text \<open>
  What the map shows: \<^verbatim>\<open>{shouldRenderTrajectories && polylineData.map(...)}\<close>. The hover and
  click handlers hang on these layers and on nothing else.
\<close>

definition renderedTrajectories :: "AppState \<Rightarrow> Layer list" where
  "renderedTrajectories s = (if shouldRenderTrajectories s then polylineData s else [])"

text \<open>The zoom listener, \<^verbatim>\<open>setCurrentZoom(target.getZoom())\<close>.\<close>

definition handleZoom :: "real \<Rightarrow> AppState \<Rightarrow> AppState" where
  "handleZoom z s = s\<lparr>currentZoom := z\<rparr>"

text \<open>The effect on \<^verbatim>\<open>shouldRenderTrajectories\<close>.\<close>

definition hoverEffect :: "AppState \<Rightarrow> AppState" where
  "hoverEffect s = (if \<not> shouldRenderTrajectories s then s\<lparr>hoveredLogId := None\<rparr> else s)"

definition onMouseOver :: "string \<Rightarrow> AppState \<Rightarrow> AppState" where
  "onMouseOver lid s = s\<lparr>hoveredLogId := Some lid\<rparr>"

definition onMouseOut :: "string \<Rightarrow> AppState \<Rightarrow> AppState" where
  "onMouseOut lid s =
     s\<lparr>hoveredLogId := (if hoveredLogId s = Some lid then None else hoveredLogId s)\<rparr>"

text \<open>
  The map widget as \<^verbatim>\<open>FocusController\<close> uses it: the current zoom and Leaflet's
  \<^verbatim>\<open>getBoundsZoom(bounds, inside, padding)\<close>, both given from outside.
\<close>

record LeafletMap =
  getZoom :: real
  getBoundsZoom :: "(real \<times> real) \<times> (real \<times> real) \<Rightarrow> bool \<Rightarrow> real \<times> real \<Rightarrow> real"

text \<open>A call \<^verbatim>\<open>map.setView(center, zoom, ...)\<close>.\<close>

record SetView =
  view_center :: "real \<times> real"
  view_zoom :: real

text \<open>
  The effect of \<^verbatim>\<open>FocusController\<close>: the \<^verbatim>\<open>setView\<close> call it makes, or \<open>None\<close> when it
  returns early.
\<close>

definition FocusController ::
  "LeafletMap \<Rightarrow> string option \<Rightarrow> (string \<times> LogState) list \<Rightarrow> SetView option" where
  "FocusController lmap lastActivated ls =
     (case lastActivated of
        None \<Rightarrow> None
      | Some lid \<Rightarrow>
          if \<not> truthy (Some lid) then None
          else
            (case map_of ls lid of
               None \<Rightarrow> None
             | Some entry \<Rightarrow>
                 (case detail entry of
                    None \<Rightarrow> None
                  | Some d \<Rightarrow>
                      (case trajectory d of
                         [] \<Rightarrow> None
                       | first # _ \<Rightarrow>
                           (case bounds d of
                              Some b \<Rightarrow>
                                (let zoom = getBoundsZoom lmap
                                              ((min_lat b, min_lon b), (max_lat b, max_lon b))
                                              False (60, 60);
                                     targetZoom = max zoom DISPLAY_ZOOM_THRESHOLD
                                 in Some \<lparr>view_center = (lat first, lon first),
                                          view_zoom = targetZoom\<rparr>)
                            | None \<Rightarrow>
                                (let targetZoom = max (getZoom lmap) DISPLAY_ZOOM_THRESHOLD
                                 in Some \<lparr>view_center = (lat first, lon first),
                                          view_zoom = targetZoom\<rparr>))))))"

section \<open>The component as a transition system\<close>

text \<open>
  The event loop runs one callback at a time. An event is a user action on an element that
  is on the page, a zoom notification of the map, or the settling of a promise that is
  still open; a transition is the handler of the event followed by the effects whose
  dependencies the handler changed.
\<close>

datatype event =
    LogsResolved nat DrivingLogListResponse
  | LogsRejected nat string
  | LoadMoreClick
  | PanelToggle
  | LogCheckboxChange string bool
  | SelectAllChange bool
  | DetailResolved string DrivingLogDetail
  | DetailRejected string string
  | PolylineClick string
  | ImageResolved nat string string
  | ImageRejected nat string string
  | ClosePreviewClick
  | ZoomChange real
  | MouseOver string
  | MouseOut string

text \<open>
  When an event can happen. The list, its checkboxes and the load-more button are rendered
  only in the open panel and only when \<^verbatim>\<open>isLoadingSummaries\<close> is false; the select-all row
  needs a non-empty list, a row needs its record, the load-more button is disabled while
  \<^verbatim>\<open>isLoadingMore\<close>. Hover and click handlers exist on the rendered layers only. A promise
  settles once, and only if it was created. \<^verbatim>\<open>fetchLogImage\<close> resolves with the result of
  \<^verbatim>\<open>URL.createObjectURL\<close>: a non-empty string that the browser has not handed out before,
  so it is neither held nor among the revoked ones.
\<close>

fun enabled :: "event \<Rightarrow> AppState \<Rightarrow> bool" where
  "enabled (LogsResolved offset response) s = (offset \<in> set (pendingLogs s))"
| "enabled (LogsRejected offset msg) s = (offset \<in> set (pendingLogs s))"
| "enabled LoadMoreClick s =
     (panelOpen s \<and> \<not> isLoadingSummaries s \<and> nextOffset s \<noteq> None \<and> \<not> isLoadingMore s)"
| "enabled PanelToggle s = True"
| "enabled (LogCheckboxChange rowId isChecked) s =
     (panelOpen s \<and> \<not> isLoadingSummaries s \<and> rowId \<in> set (logOrder s) \<and>
      map_of (logState s) rowId \<noteq> None)"
| "enabled (SelectAllChange isChecked) s =
     (panelOpen s \<and> \<not> isLoadingSummaries s \<and> logOrder s \<noteq> [])"
| "enabled (DetailResolved lid d) s = (lid \<in> set (pendingDetail s))"
| "enabled (DetailRejected lid msg) s = (lid \<in> set (pendingDetail s))"
| "enabled (PolylineClick lid) s = (lid \<in> set (map layer_logId (renderedTrajectories s)))"
| "enabled (ImageResolved requestId lid url) s =
     ((requestId, lid) \<in> set (pendingImage s) \<and> url \<noteq> [] \<and>
      url \<notin> set (revokedUrls s) \<and> previewImageUrlRef s \<noteq> Some url)"
| "enabled (ImageRejected requestId lid msg) s = ((requestId, lid) \<in> set (pendingImage s))"
| "enabled ClosePreviewClick s = True"
| "enabled (ZoomChange z) s = True"
| "enabled (MouseOver lid) s = (lid \<in> set (map layer_logId (renderedTrajectories s)))"
| "enabled (MouseOut lid) s = (lid \<in> set (map layer_logId (renderedTrajectories s)))"

text \<open>
  The transition of an event. A settled promise leaves the open ones; a change of
  \<^verbatim>\<open>activeLogs\<close> runs the detail effect; a change of \<^verbatim>\<open>shouldRenderTrajectories\<close> runs the
  hover effect.
\<close>

fun fire :: "event \<Rightarrow> AppState \<Rightarrow> AppState" where
  "fire (LogsResolved offset response) s =
     loadLogs_resolved offset response (s\<lparr>pendingLogs := remove1 offset (pendingLogs s)\<rparr>)"
| "fire (LogsRejected offset msg) s =
     loadLogs_rejected offset msg (s\<lparr>pendingLogs := remove1 offset (pendingLogs s)\<rparr>)"
| "fire LoadMoreClick s = onLoadMoreClick s"
| "fire PanelToggle s = s\<lparr>panelOpen := \<not> panelOpen s\<rparr>"
| "fire (LogCheckboxChange rowId isChecked) s =
     detailEffect (onLogCheckboxChange rowId isChecked s)"
| "fire (SelectAllChange isChecked) s = detailEffect (onSelectAllChange isChecked s)"
| "fire (DetailResolved lid d) s =
     detail_resolved lid d (s\<lparr>pendingDetail := remove1 lid (pendingDetail s)\<rparr>)"
| "fire (DetailRejected lid msg) s =
     detail_rejected lid msg (s\<lparr>pendingDetail := remove1 lid (pendingDetail s)\<rparr>)"
| "fire (PolylineClick lid) s = handlePolylineClick lid s"
| "fire (ImageResolved requestId lid url) s =
     image_resolved requestId lid url
       (s\<lparr>pendingImage := remove1 (requestId, lid) (pendingImage s)\<rparr>)"
| "fire (ImageRejected requestId lid msg) s =
     image_rejected requestId lid msg
       (s\<lparr>pendingImage := remove1 (requestId, lid) (pendingImage s)\<rparr>)"
| "fire ClosePreviewClick s = closePreview s"
| "fire (ZoomChange z) s =
     (let s1 = handleZoom z s
      in if shouldRenderTrajectories s1 \<noteq> shouldRenderTrajectories s then hoverEffect s1
         else s1)"
| "fire (MouseOver lid) s = onMouseOver lid s"
| "fire (MouseOut lid) s = onMouseOut lid s"

definition step :: "event \<Rightarrow> AppState \<Rightarrow> AppState" where
  "step e s = (if enabled e s then fire e s else s)"

definition run :: "event list \<Rightarrow> AppState \<Rightarrow> AppState" where
  "run es s = fold step es s"

text \<open>The initial values of the state variables and refs.\<close>

definition initialState :: AppState where
  "initialState =
     \<lparr>logState = [], logOrder = [], activeLogs = [], app_error = None,
      isLoadingSummaries = True, isLoadingMore = False, totalLogs = None,
      nextOffset = Some 0, panelOpen = False, lastActivatedLog = None,
      currentZoom = DEFAULT_ZOOM, hoveredLogId = None, isPreviewOpen = False,
      previewState = None, previewImageUrlRef = None, previewRequestIdRef = 0,
      revokedUrls = [], pendingLogs = [], pendingDetail = [], fetchLogDetailCalls = [],
      pendingImage = []\<rparr>"

text \<open>
  The component after its first render: the mount effects have run, of which
  \<^verbatim>\<open>loadLogs(0)\<close> is the one that does something.
\<close>

definition mounted :: AppState where
  "mounted = hoverEffect (detailEffect (loadLogs_begin 0 initialState))"

text \<open>
  What the component needs of the catalog service: the next offset it hands out is never
  \<open>0\<close>, the offset of the first page. A response that named \<open>0\<close> would make the load-more
  button ask for the first page again, and the answer to that request replaces the records
  and the order. The service as the spec describes it (\<open>listPage\<close> below) meets the
  condition for every page size above zero.
\<close>

definition server_ok :: "event \<Rightarrow> bool" where
  "server_ok e =
     (case e of LogsResolved offset response \<Rightarrow> next_offset response \<noteq> Some 0 | _ \<Rightarrow> True)"

text \<open>
  Modelled from the spec: the catalog service behind \<^verbatim>\<open>fetchLogs\<close>, whose code (the
  backend) is not among the sources. Section 4.1 gives its contract,
  \<^verbatim>\<open>listPage(offset, limit) -> {items, total, next_offset}\<close>, with \<^verbatim>\<open>next_offset\<close> null once
  \<^verbatim>\<open>offset+len(items) >= total\<close>; the page is the slice of the catalogue that starts at the
  offset, and the next offset is where the page ends.
\<close>

definition listPage :: "DrivingLogListItem list \<Rightarrow> nat \<Rightarrow> nat \<Rightarrow> DrivingLogListResponse" where
  "listPage catalog offset limit =
     (let its = take limit (drop offset catalog)
      in \<lparr>items = its, total = length catalog,
          next_offset =
            (if offset + length its \<ge> length catalog then None
             else Some (offset + length its))\<rparr>)"

section \<open>Invariants\<close>

text \<open>
  What holds of the preview in every state the component reaches: an open image request
  carries an id that the counter has reached; no two open requests carry the same id; the
  request that carries the current id belongs to the session on display, which is still
  loading; the held object URL is a non-empty string that has not been revoked; an image on
  display is the held one.
\<close>

definition inv_preview :: "AppState \<Rightarrow> bool" where
  "inv_preview s \<longleftrightarrow>
     (\<forall>rid lid. (rid, lid) \<in> set (pendingImage s) \<longrightarrow> rid \<le> previewRequestIdRef s) \<and>
     distinct (map fst (pendingImage s)) \<and>
     (\<forall>lid. (previewRequestIdRef s, lid) \<in> set (pendingImage s) \<longrightarrow>
        previewState s =
          Some \<lparr>logId = lid, imageUrl = None, preview_loading = True, preview_error = None\<rparr>) \<and>
     previewImageUrlRef s \<noteq> Some [] \<and>
     (\<forall>u. previewImageUrlRef s = Some u \<longrightarrow> u \<notin> set (revokedUrls s)) \<and>
     (\<forall>p u. previewState s = Some p \<longrightarrow> imageUrl p = Some u \<longrightarrow> previewImageUrlRef s = Some u)"

text \<open>
  What holds of the catalogue and the detail fetches in every state the component reaches,
  as long as the catalog service never names \<open>0\<close> as the next offset: a record is filed
  under the identifier of its summary; the selection is part of the merged order; until the
  first page has arrived nothing is loaded, no detail fetch is open, and the only page
  request there can be is the one for offset \<open>0\<close>, which is open exactly while
  \<^verbatim>\<open>isLoadingSummaries\<close> is set; afterwards no request for offset \<open>0\<close> is open; no two open
  detail fetches are for the same identifier; an identifier with an open detail fetch has a
  record that is loading and has no detail.
\<close>

definition inv_catalog :: "AppState \<Rightarrow> bool" where
  "inv_catalog s \<longleftrightarrow>
     (\<forall>k v. map_of (logState s) k = Some v \<longrightarrow> log_id (summary v) = k) \<and>
     set (activeLogs s) \<subseteq> set (logOrder s) \<and>
     (nextOffset s = Some 0 \<longrightarrow>
        logState s = [] \<and> logOrder s = [] \<and> pendingDetail s = [] \<and>
        pendingLogs s = (if isLoadingSummaries s then [0] else [])) \<and>
     (nextOffset s \<noteq> Some 0 \<longrightarrow> 0 \<notin> set (pendingLogs s)) \<and>
     distinct (pendingDetail s) \<and>
     (\<forall>lid \<in> set (pendingDetail s).
        \<exists>entry. map_of (logState s) lid = Some entry \<and> loading entry \<and> detail entry = None)"

text \<open>
  While the counter stays at the id of a request for \<open>B\<close>, the session on display is the
  one of \<open>B\<close>, loading exactly as long as that request is open.
\<close>

definition session_of :: "nat \<Rightarrow> string \<Rightarrow> AppState \<Rightarrow> bool" where
  "session_of n B s \<longleftrightarrow>
     n \<le> previewRequestIdRef s \<and>
     (previewRequestIdRef s = n \<longrightarrow>
        (\<exists>p. previewState s = Some p \<and> logId p = B \<and>
             (preview_loading p \<longleftrightarrow> (n, B) \<in> set (pendingImage s))))"

text \<open>The events that settle the detail fetch of an identifier.\<close>

definition settlesDetail :: "string \<Rightarrow> event \<Rightarrow> bool" where
  "settlesDetail lid e =
     (case e of
        DetailResolved l d \<Rightarrow> l = lid
      | DetailRejected l msg \<Rightarrow> l = lid
      | _ \<Rightarrow> False)"

text \<open>
  A record for which the detail effect would call \<^verbatim>\<open>fetchLogDetail\<close>: present, without
  detail, not loading.
\<close>

definition idle :: "AppState \<Rightarrow> string \<Rightarrow> bool" where
  "idle s lid =
     (case map_of (logState s) lid of
        None \<Rightarrow> False
      | Some entry \<Rightarrow> detail entry = None \<and> \<not> loading entry)"

section \<open>Example data\<close>

text \<open>
  A catalogue of two logs, and the events that load it, open the panel, select both logs and
  deliver both details: after them both trajectories are on the map.
\<close>

definition itemA :: DrivingLogListItem where
  "itemA = \<lparr>log_id = ''A'', num_points = None, bounds = None\<rparr>"

definition itemB :: DrivingLogListItem where
  "itemB = \<lparr>log_id = ''B'', num_points = None, bounds = None\<rparr>"

definition detailA :: DrivingLogDetail where
  "detailA =
     \<lparr>log_id = ''A'', num_points = Some 1, bounds = None, trajectory = [\<lparr>lat = 1, lon = 2\<rparr>]\<rparr>"

definition detailB :: DrivingLogDetail where
  "detailB =
     \<lparr>log_id = ''B'', num_points = Some 1, bounds = None, trajectory = [\<lparr>lat = 3, lon = 4\<rparr>]\<rparr>"

definition firstPage :: DrivingLogListResponse where
  "firstPage = \<lparr>items = [itemA, itemB], total = 2, next_offset = None\<rparr>"

definition bothShown :: "event list" where
  "bothShown =
     [LogsResolved 0 firstPage, PanelToggle, LogCheckboxChange ''A'' True,
      LogCheckboxChange ''B'' True, DetailResolved ''A'' detailA, DetailResolved ''B'' detailB]"

text \<open>
  Every event of a list is enabled when its turn comes.
\<close>

fun all_enabled :: "event list \<Rightarrow> AppState \<Rightarrow> bool" where
  "all_enabled [] s = True"
| "all_enabled (e # es) s = (enabled e s \<and> all_enabled es (fire e s))"

text \<open>
  A first page whose answer names \<open>0\<close> as the next offset, and two runs that press the
  load-more button after it, so that \<^verbatim>\<open>loadLogs(0)\<close> runs a second time: one while the
  detail fetch of \<open>A\<close> is open, one while the preview shows \<open>A\<close>.
\<close>

definition pageNamingZero :: DrivingLogListResponse where
  "pageNamingZero = \<lparr>items = [itemA, itemB], total = 3, next_offset = Some 0\<rparr>"

definition reloadWhileFetching :: "event list" where
  "reloadWhileFetching =
     [LogsResolved 0 pageNamingZero, PanelToggle, LogCheckboxChange ''A'' True,
      LoadMoreClick, LogsResolved 0 firstPage, LogCheckboxChange ''B'' True]"

definition pageOfB :: DrivingLogListResponse where
  "pageOfB = \<lparr>items = [itemB], total = 1, next_offset = None\<rparr>"

definition reloadUnderPreview :: "event list" where
  "reloadUnderPreview =
     [LogsResolved 0 pageNamingZero, PanelToggle, LogCheckboxChange ''A'' True,
      DetailResolved ''A'' detailA, PolylineClick ''A'', ImageResolved 1 ''A'' ''blob:a'',
      LoadMoreClick, LogsResolved 0 pageOfB, SelectAllChange True]"

section \<open>Pagination merges\<close>

lemma map_of_mergeItem:
  "map_of (mergeItem lg base) k =
     (if k = log_id lg then
        Some (case map_of base k of
                Some existing \<Rightarrow> existing\<lparr>summary := lg\<rparr>
              | None \<Rightarrow> \<lparr>summary = lg, detail = None, loading = False, error = None\<rparr>)
      else map_of base k)"
  by (simp add: mergeItem_def update_conv' split: option.split)

lemma keys_mergeItem:
  "map fst (mergeItem lg base) =
     (if log_id lg \<in> set (map fst base) then map fst base else map fst base @ [log_id lg])"
  by (simp add: mergeItem_def update_keys split: option.split)

lemma map_of_fold_mergeItem_present:
  "map_of base k = Some ex \<Longrightarrow>
   map_of (fold mergeItem its base) k =
     Some (ex\<lparr>summary := last (summary ex # [i \<leftarrow> its. log_id i = k])\<rparr>)"
proof (induction its arbitrary: base ex)
  case Nil
  then show ?case by simp
next
  case (Cons lg its)
  show ?case
  proof (cases "log_id lg = k")
    case True
    have "map_of (mergeItem lg base) k = Some (ex\<lparr>summary := lg\<rparr>)"
      using True Cons.prems by (simp add: map_of_mergeItem)
    from Cons.IH [OF this] True show ?thesis by simp
  next
    case False
    have "map_of (mergeItem lg base) k = Some ex"
      using False Cons.prems by (simp add: map_of_mergeItem)
    from Cons.IH [OF this] False show ?thesis by simp
  qed
qed

lemma fold_visit_Cons:
  "fold visit (lg # its) (S, acc) =
     (if log_id lg \<in> S then fold visit its (S, acc)
      else fold visit its (insert (log_id lg) S, acc @ [log_id lg]))"
  by (simp add: visit_def)

lemma fold_visit_acc:
  "snd (fold visit its (S, acc)) = acc @ snd (fold visit its (S, []))"
proof (induction its arbitrary: S acc)
  case Nil
  show ?case by simp
next
  case (Cons lg its)
  show ?case
  proof (cases "log_id lg \<in> S")
    case True
    then show ?thesis using Cons.IH [of S acc] by (simp only: fold_visit_Cons if_True)
  next
    case False
    then show ?thesis
      using Cons.IH [of "insert (log_id lg) S" "acc @ [log_id lg]"]
            Cons.IH [of "insert (log_id lg) S" "[log_id lg]"]
      by (simp only: fold_visit_Cons if_False append_Nil append_assoc)
  qed
qed

lemma keys_fold_mergeItem:
  "map fst (fold mergeItem its base) =
     map fst base @ snd (fold visit its (fst ` set base, []))"
proof (induction its arbitrary: base)
  case Nil
  show ?case by simp
next
  case (Cons lg its)
  have step: "fold mergeItem (lg # its) base = fold mergeItem its (mergeItem lg base)"
    by simp
  show ?case
  proof (cases "log_id lg \<in> fst ` set base")
    case True
    have keys: "map fst (mergeItem lg base) = map fst base"
      using True by (simp add: keys_mergeItem)
    have dom: "fst ` set (mergeItem lg base) = fst ` set base"
      using arg_cong [OF keys, of set] by simp
    have "fold visit (lg # its) (fst ` set base, []) = fold visit its (fst ` set base, [])"
      using True by (simp only: fold_visit_Cons if_True)
    then show ?thesis
      using Cons.IH [of "mergeItem lg base"] by (simp only: step keys dom)
  next
    case False
    have keys: "map fst (mergeItem lg base) = map fst base @ [log_id lg]"
      using False by (simp add: keys_mergeItem)
    have dom: "fst ` set (mergeItem lg base) = insert (log_id lg) (fst ` set base)"
      using arg_cong [OF keys, of set] by simp
    have "fold visit (lg # its) (fst ` set base, []) =
          fold visit its (insert (log_id lg) (fst ` set base), [] @ [log_id lg])"
      using False by (simp only: fold_visit_Cons if_False)
    then have "snd (fold visit (lg # its) (fst ` set base, [])) =
          [log_id lg] @ snd (fold visit its (insert (log_id lg) (fst ` set base), []))"
      using fold_visit_acc [of its "insert (log_id lg) (fst ` set base)" "[log_id lg]"]
      by simp
    then show ?thesis
      using Cons.IH [of "mergeItem lg base"] by (simp only: step keys dom append_assoc)
  qed
qed

lemma keys_mergeLogState:
  "map fst (mergeLogState b its prev) = mergeLogOrder b its (map fst prev)"
  by (simp add: mergeLogState_def mergeLogOrder_def keys_fold_mergeItem Let_def)


lemma remdups_snoc: "remdups (xs @ [x]) = removeAll x (remdups xs) @ [x]"
  by (induction xs) auto

lemma first_seen_Cons: "rev (remdups (rev (x # xs))) = x # removeAll x (rev (remdups (rev xs)))"
  by (simp add: remdups_snoc removeAll_filter_not_eq rev_filter)

lemma fold_visit_firstseen:
  "snd (fold visit its (S, [])) = [x \<leftarrow> rev (remdups (rev (map log_id its))). x \<notin> S]"
proof (induction its arbitrary: S)
  case Nil
  show ?case by simp
next
  case (Cons lg its)
  let ?F = "rev (remdups (rev (map log_id its)))"
  have rd: "rev (remdups (rev (map log_id (lg # its)))) = log_id lg # removeAll (log_id lg) ?F"
    using first_seen_Cons [of "log_id lg" "map log_id its"] by simp
  show ?case
  proof (cases "log_id lg \<in> S")
    case True
    have "[x \<leftarrow> removeAll (log_id lg) ?F. x \<notin> S] = [x \<leftarrow> ?F. x \<notin> S]"
      using True by (auto simp: removeAll_filter_not_eq intro: filter_cong)
    then show ?thesis using True Cons.IH [of S]
      by (simp only: fold_visit_Cons if_True rd) simp
  next
    case False
    have "[x \<leftarrow> removeAll (log_id lg) ?F. x \<notin> S] = [x \<leftarrow> ?F. x \<notin> insert (log_id lg) S]"
      by (auto simp: removeAll_filter_not_eq intro: filter_cong)
    then show ?thesis
      using False Cons.IH [of "insert (log_id lg) S"]
        fold_visit_acc [of its "insert (log_id lg) S" "[log_id lg]"]
      by (simp only: fold_visit_Cons if_False rd append_Nil) simp
  qed
qed

lemma mergeLogOrder_initial:
  "mergeLogOrder True its prev = rev (remdups (rev (map log_id its)))"
  by (simp add: mergeLogOrder_def fold_visit_firstseen)

lemma mergeLogOrder_more:
  "mergeLogOrder False its prev =
     prev @ [x \<leftarrow> rev (remdups (rev (map log_id its))). x \<notin> set prev]"
  by (simp add: mergeLogOrder_def fold_visit_firstseen)

lemma distinct_mergeLogOrder:
  "distinct prev \<Longrightarrow> distinct (mergeLogOrder b its prev)"
  by (cases b) (auto simp: mergeLogOrder_initial mergeLogOrder_more)


lemma fold_requestDetail_frame:
  assumes "\<And>lid s. f (requestDetail lid s) = f s"
  shows "f (fold requestDetail xs s) = f s"
  using assms by (induction xs arbitrary: s) simp_all

lemma logOrder_detailEffect [simp]: "logOrder (detailEffect s) = logOrder s"
  unfolding detailEffect_def
  by (rule fold_requestDetail_frame) (simp add: requestDetail_def split: option.split)

lemmas handler_defs =
  loadLogs_begin_def loadLogs_finally_def loadLogs_resolved_def loadLogs_rejected_def
  onLoadMoreClick_def detail_resolved_def detail_rejected_def revokeObjectURL_def
  handlePolylineClick_def image_resolved_def releaseHeld_def image_rejected_def
  closePreview_def onLogCheckboxChange_def onSelectAllChange_def handleZoom_def
  hoverEffect_def onMouseOver_def onMouseOut_def

lemma logOrder_fire:
  "logOrder (fire e s) =
     (case e of
        LogsResolved offset response \<Rightarrow>
          mergeLogOrder (offset = 0) (items response) (logOrder s)
      | _ \<Rightarrow> logOrder s)"
  by (cases e) (simp_all add: handler_defs Let_def split: option.split)

lemma run_snoc: "run (es @ [e]) s = step e (run es s)"
  by (simp add: run_def)

lemma run_invariant:
  assumes "P s" and "\<And>e s. P s \<Longrightarrow> enabled e s \<Longrightarrow> P (fire e s)"
  shows "P (run es s)"
proof (induction es rule: rev_induct)
  case Nil
  show ?case using assms(1) by (simp add: run_def)
next
  case (snoc e es)
  then show ?case using assms(2) by (simp add: run_snoc step_def)
qed

lemma mounted_eq:
  "mounted = initialState\<lparr>app_error := None, isLoadingSummaries := True, pendingLogs := [0]\<rparr>"
  by (simp add: mounted_def hoverEffect_def detailEffect_def loadLogs_begin_def initialState_def
      shouldRenderTrajectories_def DEFAULT_ZOOM_def DISPLAY_ZOOM_THRESHOLD_def)


lemma distinct_logOrder_run: "distinct (logOrder (run es mounted))"
proof (rule run_invariant)
  show "distinct (logOrder mounted)"
    by (simp add: mounted_eq initialState_def)
next
  fix e and s :: AppState
  assume "distinct (logOrder s)"
  then show "distinct (logOrder (fire e s))"
    by (simp add: logOrder_fire distinct_mergeLogOrder split: event.split)
qed

text \<open>
  C3. Merging catalogue pages. The continuation of \<^verbatim>\<open>loadLogs(offset)\<close> merges the page
  into the order and into the records, as a first page exactly when the offset is \<open>0\<close>.
  A page loaded with offset \<open>0\<close> rebuilds the order and the
  records from that page alone: the order is the page's identifiers, each at its first
  occurrence, and the previous records play no part. A page with a later offset leaves the
  previous order as a prefix and appends the identifiers that were not present, each once, in
  the order in which the page first shows them; an identifier that was present is skipped,
  and its record keeps everything but the summary, which becomes the page's (last) summary
  for it. The keys of the record map, in insertion order, are the merged order. The merge
  keeps a duplicate-free order duplicate-free, and in every state the component reaches the
  merged order has no duplicate.
\<close>

theorem pagination_merge:
  "logOrder (fire (LogsResolved offset response) s0) =
     mergeLogOrder (offset = 0) (items response) (logOrder s0) \<and>
   logState (fire (LogsResolved offset response) s0) =
     mergeLogState (offset = 0) (items response) (logState s0) \<and>
   mergeLogOrder True its prevOrder = rev (remdups (rev (map log_id its))) \<and>
   mergeLogState True its prevState = mergeLogState True its [] \<and>
   mergeLogOrder False its prevOrder =
     prevOrder @ [x \<leftarrow> rev (remdups (rev (map log_id its))). x \<notin> set prevOrder] \<and>
   map fst (mergeLogState isInitial its prevState) =
     mergeLogOrder isInitial its (map fst prevState) \<and>
   (\<forall>k ex. map_of prevState k = Some ex \<and> k \<in> log_id ` set its \<longrightarrow>
      map_of (mergeLogState False its prevState) k =
        Some (ex\<lparr>summary := last [i \<leftarrow> its. log_id i = k]\<rparr>)) \<and>
   (distinct prevOrder \<longrightarrow> distinct (mergeLogOrder isInitial its prevOrder)) \<and>
   distinct (logOrder (run es mounted))"
proof -
  have refreshed: "map_of (mergeLogState False its prevState) k =
        Some (ex\<lparr>summary := last [i \<leftarrow> its. log_id i = k]\<rparr>)"
    if "map_of prevState k = Some ex" and "k \<in> log_id ` set its" for k ex
  proof -
    have "[i \<leftarrow> its. log_id i = k] \<noteq> []"
      using that(2) by (auto simp: filter_empty_conv)
    then show ?thesis
      using map_of_fold_mergeItem_present [OF that(1), of its]
      by (simp add: mergeLogState_def)
  qed
  have reset: "mergeLogState True its prevState = mergeLogState True its []"
    by (simp add: mergeLogState_def)
  have link: "logOrder (fire (LogsResolved offset response) s0) =
       mergeLogOrder (offset = 0) (items response) (logOrder s0) \<and>
     logState (fire (LogsResolved offset response) s0) =
       mergeLogState (offset = 0) (items response) (logState s0)"
    by (simp add: loadLogs_resolved_def loadLogs_finally_def)
  show ?thesis
    using link refreshed reset mergeLogOrder_initial [of its prevOrder]
      mergeLogOrder_more [of its prevOrder] keys_mergeLogState [of isInitial its prevState]
      distinct_mergeLogOrder [of prevOrder isInitial its] distinct_logOrder_run [of es]
    by blast
qed

theorem pagination_merge_witness:
  "map_of [(''A'', \<lparr>summary = \<lparr>log_id = ''A'', num_points = None, bounds = None\<rparr>,
                     detail = None, loading = True, error = None\<rparr>)] ''A'' =
     Some \<lparr>summary = \<lparr>log_id = ''A'', num_points = None, bounds = None\<rparr>,
           detail = None, loading = True, error = None\<rparr> \<and>
   ''A'' \<in> log_id ` set [\<lparr>log_id = ''B'', num_points = None, bounds = None\<rparr>,
                          \<lparr>log_id = ''A'', num_points = Some 7, bounds = None\<rparr>,
                          \<lparr>log_id = ''B'', num_points = Some 3, bounds = None\<rparr>] \<and>
   distinct [''A''] \<and>
   mergeLogOrder False
     [\<lparr>log_id = ''B'', num_points = None, bounds = None\<rparr>,
      \<lparr>log_id = ''A'', num_points = Some 7, bounds = None\<rparr>,
      \<lparr>log_id = ''B'', num_points = Some 3, bounds = None\<rparr>] [''A''] = [''A'', ''B''] \<and>
   map_of (mergeLogState False
     [\<lparr>log_id = ''B'', num_points = None, bounds = None\<rparr>,
      \<lparr>log_id = ''A'', num_points = Some 7, bounds = None\<rparr>,
      \<lparr>log_id = ''B'', num_points = Some 3, bounds = None\<rparr>]
     [(''A'', \<lparr>summary = \<lparr>log_id = ''A'', num_points = None, bounds = None\<rparr>,
              detail = None, loading = True, error = None\<rparr>)]) ''A'' =
     Some \<lparr>summary = \<lparr>log_id = ''A'', num_points = Some 7, bounds = None\<rparr>,
           detail = None, loading = True, error = None\<rparr> \<and>
   distinct (mergeLogOrder False
     [\<lparr>log_id = ''B'', num_points = None, bounds = None\<rparr>,
      \<lparr>log_id = ''A'', num_points = Some 7, bounds = None\<rparr>,
      \<lparr>log_id = ''B'', num_points = Some 3, bounds = None\<rparr>] [''A''])"
  using pagination_merge [of 50 "\<lparr>items = [], total = 0, next_offset = None\<rparr>" initialState
      "[\<lparr>log_id = ''B'', num_points = None, bounds = None\<rparr>,
        \<lparr>log_id = ''A'', num_points = Some 7, bounds = None\<rparr>,
        \<lparr>log_id = ''B'', num_points = Some 3, bounds = None\<rparr>]"
      "[''A'']"
      "[(''A'', \<lparr>summary = \<lparr>log_id = ''A'', num_points = None, bounds = None\<rparr>,
               detail = None, loading = True, error = None\<rparr>)]"
      False "[]"]
  by simp

section \<open>Local properties of the continuations\<close>

text \<open>
  C8. Focus on activation. When the last activated identifier has a detail with a non-empty
  trajectory, \<^verbatim>\<open>FocusController\<close> sets the view to the first point of the trajectory; with a
  bounding box the zoom is the maximum of the zoom that fits the box (padding 60) and the
  display threshold, without one it is the maximum of the current zoom and the threshold.
  Whatever view the controller sets, its zoom is at least the threshold.
\<close>

theorem focus_zoom_floor:
  "(map_of ls lid = Some entry \<and> detail entry = Some d \<and> trajectory d = first # rest \<and>
    lid \<noteq> [] \<longrightarrow>
      (\<forall>b. bounds d = Some b \<longrightarrow>
         FocusController lmap (Some lid) ls =
           Some \<lparr>view_center = (lat first, lon first),
                 view_zoom =
                   max (getBoundsZoom lmap ((min_lat b, min_lon b), (max_lat b, max_lon b))
                          False (60, 60))
                       DISPLAY_ZOOM_THRESHOLD\<rparr>) \<and>
      (bounds d = None \<longrightarrow>
         FocusController lmap (Some lid) ls =
           Some \<lparr>view_center = (lat first, lon first),
                 view_zoom = max (getZoom lmap) DISPLAY_ZOOM_THRESHOLD\<rparr>)) \<and>
   (\<forall>v. FocusController lmap lastActivated ls = Some v \<longrightarrow>
      view_zoom v \<ge> DISPLAY_ZOOM_THRESHOLD)"
  by (auto simp: FocusController_def truthy_def Let_def
      split: option.splits list.splits if_splits)

theorem focus_zoom_floor_witness:
  "map_of [(''A'', \<lparr>summary = itemA,
       detail = Some \<lparr>log_id = ''A'', num_points = Some 2,
          bounds = Some \<lparr>min_lat = 1, min_lon = 2, max_lat = 3, max_lon = 4\<rparr>,
          trajectory = [\<lparr>lat = 1, lon = 4\<rparr>, \<lparr>lat = 3, lon = 2\<rparr>]\<rparr>,
       loading = False, error = None\<rparr>)] ''A'' =
     Some \<lparr>summary = itemA,
       detail = Some \<lparr>log_id = ''A'', num_points = Some 2,
          bounds = Some \<lparr>min_lat = 1, min_lon = 2, max_lat = 3, max_lon = 4\<rparr>,
          trajectory = [\<lparr>lat = 1, lon = 4\<rparr>, \<lparr>lat = 3, lon = 2\<rparr>]\<rparr>,
       loading = False, error = None\<rparr> \<and>
   ''A'' \<noteq> [] \<and>
   FocusController \<lparr>getZoom = 16, getBoundsZoom = (\<lambda>box inside padding. 9)\<rparr> (Some ''A'')
     [(''A'', \<lparr>summary = itemA,
       detail = Some \<lparr>log_id = ''A'', num_points = Some 2,
          bounds = Some \<lparr>min_lat = 1, min_lon = 2, max_lat = 3, max_lon = 4\<rparr>,
          trajectory = [\<lparr>lat = 1, lon = 4\<rparr>, \<lparr>lat = 3, lon = 2\<rparr>]\<rparr>,
       loading = False, error = None\<rparr>)] =
     Some \<lparr>view_center = (1, 4), view_zoom = 14\<rparr> \<and>
   view_zoom \<lparr>view_center = (1, 4), view_zoom = 14\<rparr> \<ge> DISPLAY_ZOOM_THRESHOLD \<and>
   map_of [(''A'', \<lparr>summary = itemA, detail = Some detailA, loading = False,
       error = None\<rparr>)] ''A'' =
     Some \<lparr>summary = itemA, detail = Some detailA, loading = False, error = None\<rparr> \<and>
   bounds detailA = None \<and>
   trajectory detailA = [\<lparr>lat = 1, lon = 2\<rparr>] \<and>
   FocusController \<lparr>getZoom = 16, getBoundsZoom = (\<lambda>box inside padding. 9)\<rparr> (Some ''A'')
     [(''A'', \<lparr>summary = itemA, detail = Some detailA, loading = False, error = None\<rparr>)] =
     Some \<lparr>view_center = (1, 2), view_zoom = 16\<rparr>"
  using focus_zoom_floor [of
      "[(''A'', \<lparr>summary = itemA,
       detail = Some \<lparr>log_id = ''A'', num_points = Some 2,
          bounds = Some \<lparr>min_lat = 1, min_lon = 2, max_lat = 3, max_lon = 4\<rparr>,
          trajectory = [\<lparr>lat = 1, lon = 4\<rparr>, \<lparr>lat = 3, lon = 2\<rparr>]\<rparr>,
       loading = False, error = None\<rparr>)]"
      "''A''"
      "\<lparr>summary = itemA,
       detail = Some \<lparr>log_id = ''A'', num_points = Some 2,
          bounds = Some \<lparr>min_lat = 1, min_lon = 2, max_lat = 3, max_lon = 4\<rparr>,
          trajectory = [\<lparr>lat = 1, lon = 4\<rparr>, \<lparr>lat = 3, lon = 2\<rparr>]\<rparr>,
       loading = False, error = None\<rparr>"
      "\<lparr>log_id = ''A'', num_points = Some 2,
          bounds = Some \<lparr>min_lat = 1, min_lon = 2, max_lat = 3, max_lon = 4\<rparr>,
          trajectory = [\<lparr>lat = 1, lon = 4\<rparr>, \<lparr>lat = 3, lon = 2\<rparr>]\<rparr>"
      "\<lparr>lat = 1, lon = 4\<rparr>" "[\<lparr>lat = 3, lon = 2\<rparr>]"
      "\<lparr>getZoom = 16, getBoundsZoom = (\<lambda>box inside padding. 9)\<rparr>"
      "Some ''A''"]
    focus_zoom_floor [of
      "[(''A'', \<lparr>summary = itemA, detail = Some detailA, loading = False, error = None\<rparr>)]"
      "''A''" "\<lparr>summary = itemA, detail = Some detailA, loading = False, error = None\<rparr>"
      detailA "\<lparr>lat = 1, lon = 2\<rparr>" "[]"
      "\<lparr>getZoom = 16, getBoundsZoom = (\<lambda>box inside padding. 9)\<rparr>" "Some ''A''"]
  by (simp add: DISPLAY_ZOOM_THRESHOLD_def detailA_def itemA_def)

text \<open>
  C5. Completion of a detail fetch. When the identifier has a record, success stores the
  fetched detail in it and clears \<^verbatim>\<open>loading\<close> and \<^verbatim>\<open>error\<close>; failure clears \<^verbatim>\<open>loading\<close>,
  stores the failure description in \<^verbatim>\<open>error\<close> and leaves \<^verbatim>\<open>detail\<close> as it was, so unset
  when it was unset. Either way the records of all other identifiers, the order of the keys
  and every other state variable stay as they were. When the identifier has no record,
  nothing changes.
\<close>

theorem detail_completion:
  "(map_of (logState s) lid = Some st \<longrightarrow>
      map_of (logState (detail_resolved lid d s)) lid =
        Some (st\<lparr>detail := Some d, loading := False, error := None\<rparr>) \<and>
      map_of (logState (detail_rejected lid msg s)) lid =
        Some (st\<lparr>loading := False, error := Some msg\<rparr>) \<and>
      (detail st = None \<longrightarrow>
         (\<exists>st'. map_of (logState (detail_rejected lid msg s)) lid = Some st' \<and>
                detail st' = None \<and> \<not> loading st' \<and> error st' = Some msg))) \<and>
   (map_of (logState s) lid = None \<longrightarrow>
      detail_resolved lid d s = s \<and> detail_rejected lid msg s = s) \<and>
   (\<forall>k. k \<noteq> lid \<longrightarrow>
      map_of (logState (detail_resolved lid d s)) k = map_of (logState s) k \<and>
      map_of (logState (detail_rejected lid msg s)) k = map_of (logState s) k) \<and>
   map fst (logState (detail_resolved lid d s)) = map fst (logState s) \<and>
   map fst (logState (detail_rejected lid msg s)) = map fst (logState s) \<and>
   detail_resolved lid d s = s\<lparr>logState := logState (detail_resolved lid d s)\<rparr> \<and>
   detail_rejected lid msg s = s\<lparr>logState := logState (detail_rejected lid msg s)\<rparr>"
proof -
  have key: "lid \<in> fst ` set (logState s)" if "map_of (logState s) lid = Some st" for st
    using that by (metis map_of_eq_None_iff option.distinct(1))
  show ?thesis
    using key
    by (auto simp: detail_resolved_def detail_rejected_def update_conv' update_keys
        split: option.splits)
qed

theorem detail_completion_witness:
  "map_of (logState (initialState\<lparr>logState :=
       [(''A'', \<lparr>summary = \<lparr>log_id = ''A'', num_points = None, bounds = None\<rparr>,
                detail = None, loading = True, error = None\<rparr>),
        (''B'', \<lparr>summary = \<lparr>log_id = ''B'', num_points = None, bounds = None\<rparr>,
                detail = None, loading = True, error = None\<rparr>)]\<rparr>)) ''A'' =
     Some \<lparr>summary = \<lparr>log_id = ''A'', num_points = None, bounds = None\<rparr>,
           detail = None, loading = True, error = None\<rparr> \<and>
   ''B'' \<noteq> ''A'' \<and>
   logState (detail_rejected ''A'' ''HTTP 500'' (initialState\<lparr>logState :=
       [(''A'', \<lparr>summary = \<lparr>log_id = ''A'', num_points = None, bounds = None\<rparr>,
                detail = None, loading = True, error = None\<rparr>),
        (''B'', \<lparr>summary = \<lparr>log_id = ''B'', num_points = None, bounds = None\<rparr>,
                detail = None, loading = True, error = None\<rparr>)]\<rparr>)) =
     [(''A'', \<lparr>summary = \<lparr>log_id = ''A'', num_points = None, bounds = None\<rparr>,
              detail = None, loading = False, error = Some ''HTTP 500''\<rparr>),
      (''B'', \<lparr>summary = \<lparr>log_id = ''B'', num_points = None, bounds = None\<rparr>,
              detail = None, loading = True, error = None\<rparr>)] \<and>
   map_of (logState (detail_resolved ''A''
       \<lparr>log_id = ''A'', num_points = Some 1, bounds = None, trajectory = [\<lparr>lat = 1, lon = 2\<rparr>]\<rparr>
       (initialState\<lparr>logState :=
       [(''A'', \<lparr>summary = \<lparr>log_id = ''A'', num_points = None, bounds = None\<rparr>,
                detail = None, loading = True, error = None\<rparr>),
        (''B'', \<lparr>summary = \<lparr>log_id = ''B'', num_points = None, bounds = None\<rparr>,
                detail = None, loading = True, error = None\<rparr>)]\<rparr>))) ''A'' =
     Some \<lparr>summary = \<lparr>log_id = ''A'', num_points = None, bounds = None\<rparr>,
           detail = Some \<lparr>log_id = ''A'', num_points = Some 1, bounds = None,
                           trajectory = [\<lparr>lat = 1, lon = 2\<rparr>]\<rparr>,
           loading = False, error = None\<rparr>"
  using detail_completion [of
      "initialState\<lparr>logState :=
       [(''A'', \<lparr>summary = \<lparr>log_id = ''A'', num_points = None, bounds = None\<rparr>,
                detail = None, loading = True, error = None\<rparr>),
        (''B'', \<lparr>summary = \<lparr>log_id = ''B'', num_points = None, bounds = None\<rparr>,
                detail = None, loading = True, error = None\<rparr>)]\<rparr>"
      "''A''"
      "\<lparr>summary = \<lparr>log_id = ''A'', num_points = None, bounds = None\<rparr>,
           detail = None, loading = True, error = None\<rparr>"
      "\<lparr>log_id = ''A'', num_points = Some 1, bounds = None, trajectory = [\<lparr>lat = 1, lon = 2\<rparr>]\<rparr>"
      "''HTTP 500''"]
  by (simp add: detail_rejected_def)

section \<open>The preview invariant\<close>

lemma inv_preview_mounted: "inv_preview mounted"
  by (simp add: inv_preview_def mounted_eq initialState_def)

lemma inv_preview_closePreview: "inv_preview s \<Longrightarrow> inv_preview (closePreview s)"
  unfolding inv_preview_def closePreview_def releaseHeld_def revokeObjectURL_def
  by (auto split: option.splits dest: le_SucI)

lemma inv_preview_click: "inv_preview s \<Longrightarrow> inv_preview (handlePolylineClick lid s)"
  unfolding inv_preview_def handlePolylineClick_def Let_def
  by (fastforce)

lemma in_remove1D: "x \<in> set (remove1 y xs) \<Longrightarrow> x \<in> set xs"
  using set_remove1_subset by fastforce

lemma distinct_fst_remove1: "distinct (map fst xs) \<Longrightarrow> distinct (map fst (remove1 x xs))"
  by (induction xs) (auto simp: image_iff dest: notin_set_remove1)

lemma fst_unique_remove1:
  "distinct (map fst xs) \<Longrightarrow> (a, b) \<in> set xs \<Longrightarrow> (a, c) \<notin> set (remove1 (a, b) xs)"
  by (induction xs) (auto simp: image_iff rev_image_eqI dest: notin_set_remove1)

lemma inv_previewD:
  assumes "inv_preview s"
  shows "\<And>rid lid. (rid, lid) \<in> set (pendingImage s) \<Longrightarrow> rid \<le> previewRequestIdRef s"
    and "distinct (map fst (pendingImage s))"
    and "\<And>lid. (previewRequestIdRef s, lid) \<in> set (pendingImage s) \<Longrightarrow>
           previewState s =
             Some \<lparr>logId = lid, imageUrl = None, preview_loading = True, preview_error = None\<rparr>"
    and "previewImageUrlRef s \<noteq> Some []"
    and "\<And>u. previewImageUrlRef s = Some u \<Longrightarrow> u \<notin> set (revokedUrls s)"
    and "\<And>p u. previewState s = Some p \<Longrightarrow> imageUrl p = Some u \<Longrightarrow>
           previewImageUrlRef s = Some u"
  using assms unfolding inv_preview_def by blast+

lemma inv_previewI:
  assumes "\<And>rid lid. (rid, lid) \<in> set (pendingImage s) \<Longrightarrow> rid \<le> previewRequestIdRef s"
    and "distinct (map fst (pendingImage s))"
    and "\<And>lid. (previewRequestIdRef s, lid) \<in> set (pendingImage s) \<Longrightarrow>
           previewState s =
             Some \<lparr>logId = lid, imageUrl = None, preview_loading = True, preview_error = None\<rparr>"
    and "previewImageUrlRef s \<noteq> Some []"
    and "\<And>u. previewImageUrlRef s = Some u \<Longrightarrow> u \<notin> set (revokedUrls s)"
    and "\<And>p u. previewState s = Some p \<Longrightarrow> imageUrl p = Some u \<Longrightarrow>
           previewImageUrlRef s = Some u"
  shows "inv_preview s"
  using assms unfolding inv_preview_def by blast

lemma inv_preview_image_resolved:
  assumes "inv_preview s" and "enabled (ImageResolved rid lid url) s"
  shows "inv_preview (fire (ImageResolved rid lid url) s)"
proof -
  note I = inv_previewD [OF assms(1)]
  let ?s' = "fire (ImageResolved rid lid url) s"
  have en: "(rid, lid) \<in> set (pendingImage s)" "url \<noteq> []" "url \<notin> set (revokedUrls s)"
      "previewImageUrlRef s \<noteq> Some url"
    using assms(2) by simp_all
  have pend: "pendingImage ?s' = remove1 (rid, lid) (pendingImage s)"
    by (simp add: image_resolved_def revokeObjectURL_def Let_def split: option.split)
  have ctr: "previewRequestIdRef ?s' = previewRequestIdRef s"
    by (simp add: image_resolved_def revokeObjectURL_def Let_def split: option.split)
  have gone: "(rid, c) \<notin> set (pendingImage ?s')" for c
    unfolding pend using fst_unique_remove1 [OF I(2) en(1)] .
  show ?thesis
  proof (rule inv_previewI)
    fix r l assume "(r, l) \<in> set (pendingImage ?s')"
    then show "r \<le> previewRequestIdRef ?s'"
      unfolding pend ctr using I(1) in_remove1D by fast
  next
    show "distinct (map fst (pendingImage ?s'))"
      unfolding pend using I(2) by (rule distinct_fst_remove1)
  next
    fix l assume "(previewRequestIdRef ?s', l) \<in> set (pendingImage ?s')"
    then have in_old: "(previewRequestIdRef s, l) \<in> set (pendingImage s)"
        and "previewRequestIdRef s \<noteq> rid"
      using gone in_remove1D unfolding pend ctr by fast+
    then show "previewState ?s' =
        Some \<lparr>logId = l, imageUrl = None, preview_loading = True, preview_error = None\<rparr>"
      using I(3) [OF in_old] by (simp add: image_resolved_def revokeObjectURL_def)
  next
    show "previewImageUrlRef ?s' \<noteq> Some []"
      using I(4) en(2)
      by (simp add: image_resolved_def revokeObjectURL_def Let_def split: option.split)
  next
    fix u assume "previewImageUrlRef ?s' = Some u"
    then show "u \<notin> set (revokedUrls ?s')"
      using I(5) en(3,4)
      by (auto simp: image_resolved_def revokeObjectURL_def Let_def
          split: option.splits if_splits)
  next
    fix p u assume "previewState ?s' = Some p" "imageUrl p = Some u"
    then show "previewImageUrlRef ?s' = Some u"
      using I(6)
      by (auto simp: image_resolved_def revokeObjectURL_def Let_def
          split: option.splits if_splits)
  qed
qed

lemma inv_preview_image_rejected:
  assumes "inv_preview s" and "enabled (ImageRejected rid lid msg) s"
  shows "inv_preview (fire (ImageRejected rid lid msg) s)"
proof -
  note I = inv_previewD [OF assms(1)]
  let ?s' = "fire (ImageRejected rid lid msg) s"
  have en: "(rid, lid) \<in> set (pendingImage s)"
    using assms(2) by simp
  have pend: "pendingImage ?s' = remove1 (rid, lid) (pendingImage s)"
    by (simp add: image_rejected_def releaseHeld_def revokeObjectURL_def split: option.split)
  have ctr: "previewRequestIdRef ?s' = previewRequestIdRef s"
    by (simp add: image_rejected_def releaseHeld_def revokeObjectURL_def split: option.split)
  have gone: "(rid, c) \<notin> set (pendingImage ?s')" for c
    unfolding pend using fst_unique_remove1 [OF I(2) en(1)] .
  show ?thesis
  proof (rule inv_previewI)
    fix r l assume "(r, l) \<in> set (pendingImage ?s')"
    then show "r \<le> previewRequestIdRef ?s'"
      unfolding pend ctr using I(1) in_remove1D by fast
  next
    show "distinct (map fst (pendingImage ?s'))"
      unfolding pend using I(2) by (rule distinct_fst_remove1)
  next
    fix l assume "(previewRequestIdRef ?s', l) \<in> set (pendingImage ?s')"
    then have in_old: "(previewRequestIdRef s, l) \<in> set (pendingImage s)"
        and "previewRequestIdRef s \<noteq> rid"
      using gone in_remove1D unfolding pend ctr by fast+
    then show "previewState ?s' =
        Some \<lparr>logId = l, imageUrl = None, preview_loading = True, preview_error = None\<rparr>"
      using I(3) [OF in_old] by (simp add: image_rejected_def)
  next
    show "previewImageUrlRef ?s' \<noteq> Some []"
      using I(4)
      by (simp add: image_rejected_def releaseHeld_def revokeObjectURL_def split: option.split)
  next
    fix u assume "previewImageUrlRef ?s' = Some u"
    then show "u \<notin> set (revokedUrls ?s')"
      using I(5)
      by (auto simp: image_rejected_def releaseHeld_def revokeObjectURL_def
          split: option.splits if_splits)
  next
    fix p u assume "previewState ?s' = Some p" "imageUrl p = Some u"
    then show "previewImageUrlRef ?s' = Some u"
      using I(6)
      by (auto simp: image_rejected_def releaseHeld_def revokeObjectURL_def
          split: option.splits if_splits)
  qed
qed

lemma rest_eqD:
  assumes "s'\<lparr>logState := [], pendingDetail := [], fetchLogDetailCalls := []\<rparr> =
           s\<lparr>logState := [], pendingDetail := [], fetchLogDetailCalls := []\<rparr>"
  shows "logOrder s' = logOrder s" "activeLogs s' = activeLogs s" "app_error s' = app_error s"
    "isLoadingSummaries s' = isLoadingSummaries s" "isLoadingMore s' = isLoadingMore s"
    "totalLogs s' = totalLogs s" "nextOffset s' = nextOffset s" "panelOpen s' = panelOpen s"
    "lastActivatedLog s' = lastActivatedLog s" "currentZoom s' = currentZoom s"
    "hoveredLogId s' = hoveredLogId s" "isPreviewOpen s' = isPreviewOpen s"
    "previewState s' = previewState s" "previewImageUrlRef s' = previewImageUrlRef s"
    "previewRequestIdRef s' = previewRequestIdRef s" "revokedUrls s' = revokedUrls s"
    "pendingLogs s' = pendingLogs s" "pendingImage s' = pendingImage s"
  using assms by (cases s, cases s', simp)+

lemma detailEffect_rest:
  "(detailEffect s)\<lparr>logState := [], pendingDetail := [], fetchLogDetailCalls := []\<rparr> =
   s\<lparr>logState := [], pendingDetail := [], fetchLogDetailCalls := []\<rparr>"
  unfolding detailEffect_def
  by (rule fold_requestDetail_frame) (simp add: requestDetail_def split: option.split)

lemmas detailEffect_fields [simp] = rest_eqD [OF detailEffect_rest]

lemma inv_preview_update [simp]:
  "inv_preview (s\<lparr>logState := x1\<rparr>) = inv_preview s"
  "inv_preview (s\<lparr>logOrder := x2\<rparr>) = inv_preview s"
  "inv_preview (s\<lparr>activeLogs := x3\<rparr>) = inv_preview s"
  "inv_preview (s\<lparr>app_error := x4\<rparr>) = inv_preview s"
  "inv_preview (s\<lparr>isLoadingSummaries := x5\<rparr>) = inv_preview s"
  "inv_preview (s\<lparr>isLoadingMore := x6\<rparr>) = inv_preview s"
  "inv_preview (s\<lparr>totalLogs := x7\<rparr>) = inv_preview s"
  "inv_preview (s\<lparr>nextOffset := x8\<rparr>) = inv_preview s"
  "inv_preview (s\<lparr>panelOpen := x9\<rparr>) = inv_preview s"
  "inv_preview (s\<lparr>lastActivatedLog := x10\<rparr>) = inv_preview s"
  "inv_preview (s\<lparr>currentZoom := x11\<rparr>) = inv_preview s"
  "inv_preview (s\<lparr>hoveredLogId := x12\<rparr>) = inv_preview s"
  "inv_preview (s\<lparr>isPreviewOpen := x13\<rparr>) = inv_preview s"
  "inv_preview (s\<lparr>pendingLogs := x14\<rparr>) = inv_preview s"
  "inv_preview (s\<lparr>pendingDetail := x15\<rparr>) = inv_preview s"
  "inv_preview (s\<lparr>fetchLogDetailCalls := x16\<rparr>) = inv_preview s"
  by (simp_all add: inv_preview_def)

lemma inv_preview_detailEffect [simp]: "inv_preview (detailEffect s) = inv_preview s"
  by (simp add: inv_preview_def)

lemma inv_preview_checkbox:
  "inv_preview s \<Longrightarrow> inv_preview (onLogCheckboxChange row b s)"
  by (auto simp: onLogCheckboxChange_def Let_def
      split: option.splits intro!: inv_preview_closePreview)

lemma inv_preview_selectAll:
  "inv_preview s \<Longrightarrow> inv_preview (onSelectAllChange b s)"
  by (auto simp: onSelectAllChange_def intro!: inv_preview_closePreview)

lemma inv_preview_fire:
  assumes "inv_preview s" and "enabled e s"
  shows "inv_preview (fire e s)"
proof (cases e)
  case (ImageResolved rid lid url)
  then show ?thesis using assms inv_preview_image_resolved by simp
next
  case (ImageRejected rid lid msg)
  then show ?thesis using assms inv_preview_image_rejected by simp
next
  case (PolylineClick lid)
  then show ?thesis using assms inv_preview_click by simp
next
  case ClosePreviewClick
  then show ?thesis using assms inv_preview_closePreview by simp
next
  case (LogCheckboxChange row b)
  then show ?thesis using assms inv_preview_checkbox by simp
next
  case (SelectAllChange b)
  then show ?thesis using assms inv_preview_selectAll by simp
next
  case (LogsResolved offset response)
  then show ?thesis
    using assms by (simp add: loadLogs_resolved_def loadLogs_finally_def)
next
  case (LogsRejected offset msg)
  then show ?thesis
    using assms by (simp add: loadLogs_rejected_def loadLogs_finally_def)
next
  case LoadMoreClick
  then show ?thesis
    using assms by (simp add: onLoadMoreClick_def loadLogs_begin_def split: option.split)
next
  case (DetailResolved lid d)
  then show ?thesis using assms by (simp add: detail_resolved_def split: option.split)
next
  case (DetailRejected lid msg)
  then show ?thesis using assms by (simp add: detail_rejected_def split: option.split)
next
  case (ZoomChange z)
  then show ?thesis using assms by (simp add: handleZoom_def hoverEffect_def Let_def)
next
  case (MouseOver lid)
  then show ?thesis using assms by (simp add: onMouseOver_def)
next
  case (MouseOut lid)
  then show ?thesis using assms by (simp add: onMouseOut_def)
next
  case PanelToggle
  then show ?thesis using assms by simp
qed

lemma inv_preview_run: "inv_preview (run es mounted)"
  using inv_preview_mounted inv_preview_fire by (rule run_invariant)

section \<open>Stale preview responses\<close>

lemma run_append: "run (es @ es') s = run es' (run es s)"
  by (simp add: run_def)

lemma closePreview_fields:
  "previewRequestIdRef (closePreview s) = previewRequestIdRef s + 1"
  "previewState (closePreview s) = None"
  "isPreviewOpen (closePreview s) = False"
  "pendingImage (closePreview s) = pendingImage s"
  "revokedUrls (closePreview s) =
     (case previewImageUrlRef s of
        Some held \<Rightarrow> if held \<noteq> [] then revokedUrls s @ [held] else revokedUrls s
      | None \<Rightarrow> revokedUrls s)"
  "previewImageUrlRef (closePreview s) =
     (case previewImageUrlRef s of
        Some held \<Rightarrow> if held \<noteq> [] then None else Some held
      | None \<Rightarrow> None)"
  by (simp_all add: closePreview_def releaseHeld_def revokeObjectURL_def split: option.split)

text \<open>
  An event other than a click on a trajectory or the settling of an image request either
  leaves the preview alone or closes it.
\<close>

lemma fire_preview_cases:
  assumes "\<And>lid. e \<noteq> PolylineClick lid" "\<And>rid lid url. e \<noteq> ImageResolved rid lid url"
    "\<And>rid lid msg. e \<noteq> ImageRejected rid lid msg"
  shows "(previewRequestIdRef (fire e s) = previewRequestIdRef s \<and>
          previewState (fire e s) = previewState s \<and>
          pendingImage (fire e s) = pendingImage s \<and>
          previewImageUrlRef (fire e s) = previewImageUrlRef s \<and>
          revokedUrls (fire e s) = revokedUrls s) \<or>
         (previewRequestIdRef (fire e s) = previewRequestIdRef s + 1 \<and>
          previewState (fire e s) = None \<and>
          pendingImage (fire e s) = pendingImage s \<and>
          set (revokedUrls s) \<subseteq> set (revokedUrls (fire e s)))"
proof (cases e)
  case (LogCheckboxChange row b)
  then show ?thesis
    by (auto simp: onLogCheckboxChange_def Let_def closePreview_fields split: option.splits)
next
  case (SelectAllChange b)
  then show ?thesis
    by (auto simp: onSelectAllChange_def closePreview_fields split: option.splits)
next
  case ClosePreviewClick
  then show ?thesis
    by (auto simp: closePreview_fields split: option.splits)
qed (use assms in \<open>simp_all add: handler_defs Let_def split: option.split\<close>)

lemma fire_counter_mono: "previewRequestIdRef s \<le> previewRequestIdRef (fire e s)"
proof (cases e)
  case (PolylineClick lid)
  then show ?thesis by (simp add: handlePolylineClick_def Let_def)
next
  case (ImageResolved rid lid url)
  then show ?thesis
    by (simp add: image_resolved_def revokeObjectURL_def Let_def split: option.split)
next
  case (ImageRejected rid lid msg)
  then show ?thesis
    by (simp add: image_rejected_def releaseHeld_def revokeObjectURL_def split: option.split)
qed (use fire_preview_cases [of e s] in auto)

lemma fire_revoked_mono: "set (revokedUrls s) \<subseteq> set (revokedUrls (fire e s))"
proof (cases e)
  case (PolylineClick lid)
  then show ?thesis by (simp add: handlePolylineClick_def Let_def)
next
  case (ImageResolved rid lid url)
  then show ?thesis
    by (auto simp: image_resolved_def revokeObjectURL_def Let_def split: option.split)
next
  case (ImageRejected rid lid msg)
  then show ?thesis
    by (auto simp: image_rejected_def releaseHeld_def revokeObjectURL_def split: option.split)
qed (use fire_preview_cases [of e s] in auto)

lemma run_counter_mono: "previewRequestIdRef s \<le> previewRequestIdRef (run es s)"
proof (induction es rule: rev_induct)
  case Nil
  show ?case by (simp add: run_def)
next
  case (snoc e es)
  then show ?case
    using fire_counter_mono [of "run es s" e] by (simp add: run_snoc step_def)
qed

lemma run_revoked_mono: "set (revokedUrls s) \<subseteq> set (revokedUrls (run es s))"
proof (induction es rule: rev_induct)
  case Nil
  show ?case by (simp add: run_def)
next
  case (snoc e es)
  then show ?case
    using fire_revoked_mono [of "run es s" e] by (auto simp add: run_snoc step_def)
qed

lemma inv_preview_run_from:
  assumes "inv_preview s"
  shows "inv_preview (run es s)"
  using assms inv_preview_fire by (rule run_invariant)

lemma session_of_fire:
  assumes "inv_preview s" "session_of n B s" "enabled e s"
  shows "session_of n B (fire e s)"
proof (cases "previewRequestIdRef (fire e s) = n")
  case False
  then show ?thesis
    using assms(2) fire_counter_mono [of s e] by (simp add: session_of_def)
next
  case True
  note I = inv_previewD [OF assms(1)]
  have ctr: "previewRequestIdRef s = n"
    using True assms(2) fire_counter_mono [of s e] by (simp add: session_of_def)
  then obtain p where p: "previewState s = Some p" "logId p = B"
      "preview_loading p \<longleftrightarrow> (n, B) \<in> set (pendingImage s)"
    using assms(2) by (auto simp: session_of_def)
  show ?thesis
  proof (cases e)
    case (PolylineClick lid)
    then show ?thesis using True ctr by (simp add: handlePolylineClick_def Let_def)
  next
    case (ImageResolved rid lid url)
    have en: "(rid, lid) \<in> set (pendingImage s)"
      using assms(3) ImageResolved by simp
    show ?thesis
    proof (cases "rid = n")
      case True
      then have "lid = B"
        using I(3) [of lid] en ctr p by auto
      moreover have "(n, B) \<notin> set (remove1 (n, B) (pendingImage s))"
        using fst_unique_remove1 [OF I(2), of n B B] en True \<open>lid = B\<close> by simp
      ultimately show ?thesis
        using True ctr ImageResolved
        by (simp add: session_of_def image_resolved_def revokeObjectURL_def Let_def
            split: option.split)
    next
      case False
      then show ?thesis
        using ctr p ImageResolved
        by (simp add: session_of_def image_resolved_def revokeObjectURL_def in_set_remove1)
    qed
  next
    case (ImageRejected rid lid msg)
    have en: "(rid, lid) \<in> set (pendingImage s)"
      using assms(3) ImageRejected by simp
    show ?thesis
    proof (cases "rid = n")
      case True
      then have "lid = B"
        using I(3) [of lid] en ctr p by auto
      moreover have "(n, B) \<notin> set (remove1 (n, B) (pendingImage s))"
        using fst_unique_remove1 [OF I(2), of n B B] en True \<open>lid = B\<close> by simp
      ultimately show ?thesis
        using True ctr ImageRejected
        by (simp add: session_of_def image_rejected_def releaseHeld_def revokeObjectURL_def
            split: option.split)
    next
      case False
      then show ?thesis
        using ctr p ImageRejected
        by (simp add: session_of_def image_rejected_def in_set_remove1)
    qed
  qed (use fire_preview_cases [of e s] True ctr p in \<open>auto simp: session_of_def\<close>)
qed

lemma session_of_run:
  assumes "inv_preview s" "session_of n B s"
  shows "session_of n B (run es s)"
proof -
  have "inv_preview (run es s) \<and> session_of n B (run es s)"
    by (rule run_invariant [where P = "\<lambda>s. inv_preview s \<and> session_of n B s"])
      (use assms inv_preview_fire session_of_fire in auto)
  then show ?thesis ..
qed

lemma session_of_click:
  assumes "inv_preview s"
  shows "session_of (previewRequestIdRef s + 1) B (handlePolylineClick B s)"
  using inv_previewD(1) [OF assms]
  by (auto simp: session_of_def handlePolylineClick_def Let_def)


lemmas example_defs =
  itemA_def itemB_def detailA_def detailB_def firstPage_def bothShown_def

lemmas eval_defs =
  run_def step_def mounted_eq initialState_def handler_defs mergeLogState_def
  mergeLogOrder_def mergeItem_def visit_def detailEffect_def requestDetail_def set_add_def
  set_delete_def new_Set_def renderedTrajectories_def polylineData_def
  shouldRenderTrajectories_def DEFAULT_ZOOM_def DISPLAY_ZOOM_THRESHOLD_def Let_def

lemmas reload_defs =
  pageNamingZero_def reloadWhileFetching_def pageOfB_def reloadUnderPreview_def

text \<open>
  C1. A stale preview response. When the request id that the continuation captured is not
  the current value of the counter, a successful response changes nothing but the list of
  revoked URLs, to which the URL it carries is added at once, and a failed one changes
  nothing at all; when the id is current, the response is committed as the session. In every
  run of the component, a URL that arrived stale is revoked and is, from then on, never the
  held URL and never the image of the session. After a click on a trajectory of \<open>B\<close>, every
  request that was open before the click stays stale for ever, and as long as the counter is
  the one the click produced, the session is the one of \<open>B\<close>: loading while the request of
  \<open>B\<close> is open, and the outcome of that request afterwards.
\<close>

theorem stale_preview_response:
  "(rid \<noteq> previewRequestIdRef s0 \<longrightarrow>
      image_resolved rid lid url s0 = s0\<lparr>revokedUrls := revokedUrls s0 @ [url]\<rparr> \<and>
      previewState (image_resolved rid lid url s0) = previewState s0 \<and>
      previewImageUrlRef (image_resolved rid lid url s0) = previewImageUrlRef s0 \<and>
      isPreviewOpen (image_resolved rid lid url s0) = isPreviewOpen s0 \<and>
      image_rejected rid lid msg s0 = s0) \<and>
   (rid = previewRequestIdRef s0 \<longrightarrow>
      previewState (image_resolved rid lid url s0) =
        Some \<lparr>logId = lid, imageUrl = Some url, preview_loading = False,
              preview_error = None\<rparr> \<and>
      previewState (image_rejected rid lid msg s0) =
        Some \<lparr>logId = lid, imageUrl = None, preview_loading = False,
              preview_error = Some msg\<rparr>) \<and>
   (enabled (ImageResolved rid lid url) (run es mounted) \<and>
    rid \<noteq> previewRequestIdRef (run es mounted) \<longrightarrow>
      url \<in> set (revokedUrls (run es' (fire (ImageResolved rid lid url) (run es mounted)))) \<and>
      previewImageUrlRef (run es' (fire (ImageResolved rid lid url) (run es mounted))) \<noteq>
        Some url \<and>
      (\<forall>p. previewState (run es' (fire (ImageResolved rid lid url) (run es mounted))) = Some p
         \<longrightarrow> imageUrl p \<noteq> Some url)) \<and>
   ((rid, lid) \<in> set (pendingImage (run es mounted)) \<longrightarrow>
      rid \<noteq> previewRequestIdRef (run es' (fire (PolylineClick B) (run es mounted)))) \<and>
   (previewRequestIdRef (run es' (fire (PolylineClick B) (run es mounted))) =
      previewRequestIdRef (run es mounted) + 1 \<longrightarrow>
      (\<exists>p. previewState (run es' (fire (PolylineClick B) (run es mounted))) = Some p \<and>
           logId p = B \<and>
           (preview_loading p \<longleftrightarrow>
              (previewRequestIdRef (run es mounted) + 1, B) \<in>
                set (pendingImage (run es' (fire (PolylineClick B) (run es mounted)))))))"
proof -
  let ?s = "run es mounted"
  have inv: "inv_preview ?s"
    by (rule inv_preview_run)
  have local_stale: "rid \<noteq> previewRequestIdRef s0 \<longrightarrow>
      image_resolved rid lid url s0 = s0\<lparr>revokedUrls := revokedUrls s0 @ [url]\<rparr> \<and>
      previewState (image_resolved rid lid url s0) = previewState s0 \<and>
      previewImageUrlRef (image_resolved rid lid url s0) = previewImageUrlRef s0 \<and>
      isPreviewOpen (image_resolved rid lid url s0) = isPreviewOpen s0 \<and>
      image_rejected rid lid msg s0 = s0"
    by (simp add: image_resolved_def image_rejected_def revokeObjectURL_def)
  have local_commit: "rid = previewRequestIdRef s0 \<longrightarrow>
      previewState (image_resolved rid lid url s0) =
        Some \<lparr>logId = lid, imageUrl = Some url, preview_loading = False,
              preview_error = None\<rparr> \<and>
      previewState (image_rejected rid lid msg s0) =
        Some \<lparr>logId = lid, imageUrl = None, preview_loading = False,
              preview_error = Some msg\<rparr>"
    by (simp add: image_resolved_def image_rejected_def Let_def)
  have never: "url \<in> set (revokedUrls (run es' (fire (ImageResolved rid lid url) ?s))) \<and>
      previewImageUrlRef (run es' (fire (ImageResolved rid lid url) ?s)) \<noteq> Some url \<and>
      (\<forall>p. previewState (run es' (fire (ImageResolved rid lid url) ?s)) = Some p
         \<longrightarrow> imageUrl p \<noteq> Some url)"
    if en: "enabled (ImageResolved rid lid url) ?s" and stale: "rid \<noteq> previewRequestIdRef ?s"
  proof -
    let ?s1 = "fire (ImageResolved rid lid url) ?s"
    let ?s2 = "run es' ?s1"
    have "url \<in> set (revokedUrls ?s1)"
      using stale by (simp add: image_resolved_def revokeObjectURL_def)
    then have rev: "url \<in> set (revokedUrls ?s2)"
      using run_revoked_mono [of ?s1 es'] by blast
    have "inv_preview ?s1"
      using inv en by (rule inv_preview_fire)
    then have "inv_preview ?s2"
      by (rule inv_preview_run_from)
    note I = inv_previewD [OF this]
    show ?thesis
      using rev I(5) I(6) by blast
  qed
  let ?c = "fire (PolylineClick B) ?s"
  have inv_c: "inv_preview ?c"
    using inv by (simp add: inv_preview_click)
  have ctr_c: "previewRequestIdRef ?c = previewRequestIdRef ?s + 1"
    by (simp add: handlePolylineClick_def Let_def)
  have older: "rid \<noteq> previewRequestIdRef (run es' ?c)"
    if "(rid, lid) \<in> set (pendingImage ?s)"
    using inv_previewD(1) [OF inv that] ctr_c run_counter_mono [of ?c es'] by simp
  have "session_of (previewRequestIdRef ?s + 1) B (run es' ?c)"
    using session_of_run [OF inv_c] session_of_click [OF inv, of B] by simp
  then have newest: "previewRequestIdRef (run es' ?c) = previewRequestIdRef ?s + 1 \<longrightarrow>
      (\<exists>p. previewState (run es' ?c) = Some p \<and> logId p = B \<and>
           (preview_loading p \<longleftrightarrow>
              (previewRequestIdRef ?s + 1, B) \<in> set (pendingImage (run es' ?c))))"
    by (simp add: session_of_def)
  show ?thesis
    using local_stale local_commit never older newest by blast
qed

theorem stale_preview_response_witness:
  "1 \<noteq> previewRequestIdRef (run (bothShown @ [PolylineClick ''A'', PolylineClick ''B'']) mounted) \<and>
   enabled (ImageResolved 1 ''A'' ''blob:a'')
     (run (bothShown @ [PolylineClick ''A'', PolylineClick ''B'']) mounted) \<and>
   revokedUrls (fire (ImageResolved 1 ''A'' ''blob:a'')
     (run (bothShown @ [PolylineClick ''A'', PolylineClick ''B'']) mounted)) = [''blob:a''] \<and>
   previewState (run [ImageResolved 2 ''B'' ''blob:b''] (fire (ImageResolved 1 ''A'' ''blob:a'')
     (run (bothShown @ [PolylineClick ''A'', PolylineClick ''B'']) mounted))) =
     Some \<lparr>logId = ''B'', imageUrl = Some ''blob:b'', preview_loading = False,
           preview_error = None\<rparr> \<and>
   (1, ''A'') \<in> set (pendingImage (run (bothShown @ [PolylineClick ''A'']) mounted)) \<and>
   previewRequestIdRef (run [ImageResolved 2 ''B'' ''blob:b'', ImageResolved 1 ''A'' ''blob:a'']
       (fire (PolylineClick ''B'') (run (bothShown @ [PolylineClick ''A'']) mounted))) =
     previewRequestIdRef (run (bothShown @ [PolylineClick ''A'']) mounted) + 1 \<and>
   previewState (run [ImageResolved 2 ''B'' ''blob:b'', ImageResolved 1 ''A'' ''blob:a'']
       (fire (PolylineClick ''B'') (run (bothShown @ [PolylineClick ''A'']) mounted))) =
     Some \<lparr>logId = ''B'', imageUrl = Some ''blob:b'', preview_loading = False,
           preview_error = None\<rparr> \<and>
   revokedUrls (run [ImageResolved 2 ''B'' ''blob:b'', ImageResolved 1 ''A'' ''blob:a'']
       (fire (PolylineClick ''B'') (run (bothShown @ [PolylineClick ''A'']) mounted))) =
     [''blob:a''] \<and>
   1 = previewRequestIdRef (run (bothShown @ [PolylineClick ''A'']) mounted) \<and>
   previewState (image_resolved 1 ''A'' ''blob:a''
       (run (bothShown @ [PolylineClick ''A'']) mounted)) =
     Some \<lparr>logId = ''A'', imageUrl = Some ''blob:a'', preview_loading = False,
           preview_error = None\<rparr> \<and>
   previewState (image_rejected 1 ''A'' ''timeout''
       (run (bothShown @ [PolylineClick ''A'']) mounted)) =
     Some \<lparr>logId = ''A'', imageUrl = None, preview_loading = False,
           preview_error = Some ''timeout''\<rparr>"
  using stale_preview_response [of 1
      "run (bothShown @ [PolylineClick ''A'', PolylineClick ''B'']) mounted" "''A''" "''blob:a''"
      "''timeout''" "bothShown @ [PolylineClick ''A'', PolylineClick ''B'']"
      "[ImageResolved 2 ''B'' ''blob:b'']" "''B''"]
    stale_preview_response [of 1
      "run (bothShown @ [PolylineClick ''A'']) mounted" "''A''" "''blob:a''"
      "''timeout''" "bothShown @ [PolylineClick ''A'']"
      "[ImageResolved 2 ''B'' ''blob:b'', ImageResolved 1 ''A'' ''blob:a'']" "''B''"]
  by (simp add: example_defs eval_defs)

section \<open>Closing the preview\<close>

text \<open>
  C6. Closing the preview. \<^verbatim>\<open>closePreview\<close> adds one to the request counter, revokes the
  held object URL and forgets it, closes the panel and clears the session; in every state the
  component reaches, no URL is held afterwards. Consequently an image request that was open
  when the close button was pressed is stale whenever it settles later: a successful
  response leaves the session, the panel and the held URL as they are and its URL is revoked
  at once; a failed one leaves them as they are.
\<close>

theorem close_invalidates:
  "previewRequestIdRef (closePreview s0) = previewRequestIdRef s0 + 1 \<and>
   previewState (closePreview s0) = None \<and>
   \<not> isPreviewOpen (closePreview s0) \<and>
   (\<forall>held. previewImageUrlRef s0 = Some held \<and> held \<noteq> [] \<longrightarrow>
      revokedUrls (closePreview s0) = revokedUrls s0 @ [held] \<and>
      previewImageUrlRef (closePreview s0) = None) \<and>
   (previewImageUrlRef s0 = None \<longrightarrow>
      revokedUrls (closePreview s0) = revokedUrls s0 \<and>
      previewImageUrlRef (closePreview s0) = None) \<and>
   previewImageUrlRef (closePreview (run es mounted)) = None \<and>
   ((rid, lid) \<in> set (pendingImage (run es mounted)) \<longrightarrow>
      rid \<noteq> previewRequestIdRef (run es' (fire ClosePreviewClick (run es mounted))) \<and>
      previewState (fire (ImageResolved rid lid url)
          (run es' (fire ClosePreviewClick (run es mounted)))) =
        previewState (run es' (fire ClosePreviewClick (run es mounted))) \<and>
      isPreviewOpen (fire (ImageResolved rid lid url)
          (run es' (fire ClosePreviewClick (run es mounted)))) =
        isPreviewOpen (run es' (fire ClosePreviewClick (run es mounted))) \<and>
      previewImageUrlRef (fire (ImageResolved rid lid url)
          (run es' (fire ClosePreviewClick (run es mounted)))) =
        previewImageUrlRef (run es' (fire ClosePreviewClick (run es mounted))) \<and>
      revokedUrls (fire (ImageResolved rid lid url)
          (run es' (fire ClosePreviewClick (run es mounted)))) =
        revokedUrls (run es' (fire ClosePreviewClick (run es mounted))) @ [url] \<and>
      previewState (fire (ImageRejected rid lid msg)
          (run es' (fire ClosePreviewClick (run es mounted)))) =
        previewState (run es' (fire ClosePreviewClick (run es mounted))) \<and>
      isPreviewOpen (fire (ImageRejected rid lid msg)
          (run es' (fire ClosePreviewClick (run es mounted)))) =
        isPreviewOpen (run es' (fire ClosePreviewClick (run es mounted))) \<and>
      previewImageUrlRef (fire (ImageRejected rid lid msg)
          (run es' (fire ClosePreviewClick (run es mounted)))) =
        previewImageUrlRef (run es' (fire ClosePreviewClick (run es mounted))) \<and>
      revokedUrls (fire (ImageRejected rid lid msg)
          (run es' (fire ClosePreviewClick (run es mounted)))) =
        revokedUrls (run es' (fire ClosePreviewClick (run es mounted))))"
proof -
  let ?s = "run es mounted"
  let ?s2 = "run es' (fire ClosePreviewClick ?s)"
  have inv: "inv_preview ?s"
    by (rule inv_preview_run)
  have local: "previewRequestIdRef (closePreview s0) = previewRequestIdRef s0 + 1 \<and>
     previewState (closePreview s0) = None \<and>
     \<not> isPreviewOpen (closePreview s0) \<and>
     (\<forall>held. previewImageUrlRef s0 = Some held \<and> held \<noteq> [] \<longrightarrow>
        revokedUrls (closePreview s0) = revokedUrls s0 @ [held] \<and>
        previewImageUrlRef (closePreview s0) = None) \<and>
     (previewImageUrlRef s0 = None \<longrightarrow>
        revokedUrls (closePreview s0) = revokedUrls s0 \<and>
        previewImageUrlRef (closePreview s0) = None)"
    by (simp add: closePreview_fields)
  have none_held: "previewImageUrlRef (closePreview ?s) = None"
    using inv_previewD(4) [OF inv] by (simp add: closePreview_fields split: option.split)
  have stale: "rid \<noteq> previewRequestIdRef ?s2" if "(rid, lid) \<in> set (pendingImage ?s)"
    using inv_previewD(1) [OF inv that] run_counter_mono [of "fire ClosePreviewClick ?s" es']
    by (simp add: closePreview_fields)
  have late: "previewState (fire (ImageResolved rid lid url) ?s2) = previewState ?s2 \<and>
      isPreviewOpen (fire (ImageResolved rid lid url) ?s2) = isPreviewOpen ?s2 \<and>
      previewImageUrlRef (fire (ImageResolved rid lid url) ?s2) = previewImageUrlRef ?s2 \<and>
      revokedUrls (fire (ImageResolved rid lid url) ?s2) = revokedUrls ?s2 @ [url] \<and>
      previewState (fire (ImageRejected rid lid msg) ?s2) = previewState ?s2 \<and>
      isPreviewOpen (fire (ImageRejected rid lid msg) ?s2) = isPreviewOpen ?s2 \<and>
      previewImageUrlRef (fire (ImageRejected rid lid msg) ?s2) = previewImageUrlRef ?s2 \<and>
      revokedUrls (fire (ImageRejected rid lid msg) ?s2) = revokedUrls ?s2"
    if "rid \<noteq> previewRequestIdRef ?s2"
    using that by (simp add: image_resolved_def image_rejected_def revokeObjectURL_def)
  show ?thesis
    using local none_held stale late by blast
qed

theorem close_invalidates_witness:
  "previewImageUrlRef
     (run (bothShown @ [PolylineClick ''A'', ImageResolved 1 ''A'' ''blob:a'',
        PolylineClick ''B'']) mounted) = Some ''blob:a'' \<and>
   ''blob:a'' \<noteq> [] \<and>
   (2, ''B'') \<in> set (pendingImage
     (run (bothShown @ [PolylineClick ''A'', ImageResolved 1 ''A'' ''blob:a'',
        PolylineClick ''B'']) mounted)) \<and>
   revokedUrls (closePreview
     (run (bothShown @ [PolylineClick ''A'', ImageResolved 1 ''A'' ''blob:a'',
        PolylineClick ''B'']) mounted)) = [''blob:a''] \<and>
   previewRequestIdRef (run [PanelToggle] (fire ClosePreviewClick
     (run (bothShown @ [PolylineClick ''A'', ImageResolved 1 ''A'' ''blob:a'',
        PolylineClick ''B'']) mounted))) = 3 \<and>
   previewState (fire (ImageResolved 2 ''B'' ''blob:b'') (run [PanelToggle]
     (fire ClosePreviewClick
       (run (bothShown @ [PolylineClick ''A'', ImageResolved 1 ''A'' ''blob:a'',
          PolylineClick ''B'']) mounted)))) = None \<and>
   revokedUrls (fire (ImageResolved 2 ''B'' ''blob:b'') (run [PanelToggle]
     (fire ClosePreviewClick
       (run (bothShown @ [PolylineClick ''A'', ImageResolved 1 ''A'' ''blob:a'',
          PolylineClick ''B'']) mounted)))) = [''blob:a'', ''blob:b'']"
  using close_invalidates [of
      "run (bothShown @ [PolylineClick ''A'', ImageResolved 1 ''A'' ''blob:a'',
        PolylineClick ''B'']) mounted"
      "bothShown @ [PolylineClick ''A'', ImageResolved 1 ''A'' ''blob:a'', PolylineClick ''B'']"
      2 "''B''" "[PanelToggle]" "''blob:b''" "''timeout''"]
  by (simp add: example_defs eval_defs)

section \<open>Render gating\<close>

lemma hover_zoom_fire:
  assumes "\<And>z. e \<noteq> ZoomChange z" "\<And>lid. e \<noteq> MouseOver lid"
  shows "currentZoom (fire e s) = currentZoom s \<and>
         (hoveredLogId (fire e s) = hoveredLogId s \<or> hoveredLogId (fire e s) = None)"
proof (cases e)
  case (LogCheckboxChange row b)
  then show ?thesis
    by (auto simp: onLogCheckboxChange_def Let_def closePreview_def releaseHeld_def
        revokeObjectURL_def split: option.splits)
next
  case (SelectAllChange b)
  then show ?thesis
    by (auto simp: onSelectAllChange_def closePreview_def releaseHeld_def
        revokeObjectURL_def split: option.splits)
qed (use assms in \<open>auto simp: handler_defs Let_def split: option.splits\<close>)

lemma hover_gate_fire:
  assumes "\<not> shouldRenderTrajectories s \<longrightarrow> hoveredLogId s = None" and "enabled e s"
  shows "\<not> shouldRenderTrajectories (fire e s) \<longrightarrow> hoveredLogId (fire e s) = None"
proof (cases e)
  case (ZoomChange z)
  then show ?thesis
    using assms(1)
    by (auto simp: handleZoom_def hoverEffect_def shouldRenderTrajectories_def Let_def)
next
  case (MouseOver lid)
  then have "shouldRenderTrajectories s"
    using assms(2) by (auto simp: renderedTrajectories_def split: if_splits)
  then show ?thesis
    using MouseOver by (simp add: onMouseOver_def shouldRenderTrajectories_def)
qed (use assms(1) hover_zoom_fire [of e s] in \<open>auto simp: shouldRenderTrajectories_def\<close>)

lemma hover_gate_run:
  "\<not> shouldRenderTrajectories (run es mounted) \<longrightarrow> hoveredLogId (run es mounted) = None"
  by (rule run_invariant [where P = "\<lambda>s. \<not> shouldRenderTrajectories s \<longrightarrow> hoveredLogId s = None"])
    (use hover_gate_fire in \<open>auto simp: mounted_eq initialState_def\<close>)

text \<open>
  C9. Render gating. \<^verbatim>\<open>shouldRenderTrajectories\<close> is \<^verbatim>\<open>currentZoom >= 14\<close>. In any state
  with the zoom below the threshold no trajectory is rendered, whatever the selection and
  the records are; in every state the component reaches with the zoom below the threshold,
  the hovered identifier is none. A zoom notification that takes the zoom from at or above
  the threshold to below it clears the hovered identifier.
\<close>

theorem render_gating:
  "shouldRenderTrajectories s0 = (currentZoom s0 \<ge> 14) \<and>
   (currentZoom s0 < DISPLAY_ZOOM_THRESHOLD \<longrightarrow> renderedTrajectories s0 = []) \<and>
   (currentZoom (run es mounted) < DISPLAY_ZOOM_THRESHOLD \<longrightarrow>
      renderedTrajectories (run es mounted) = [] \<and> hoveredLogId (run es mounted) = None) \<and>
   (DISPLAY_ZOOM_THRESHOLD \<le> currentZoom s0 \<and> z < DISPLAY_ZOOM_THRESHOLD \<longrightarrow>
      currentZoom (fire (ZoomChange z) s0) = z \<and>
      hoveredLogId (fire (ZoomChange z) s0) = None \<and>
      renderedTrajectories (fire (ZoomChange z) s0) = [])"
proof -
  have gate: "currentZoom s < DISPLAY_ZOOM_THRESHOLD \<longrightarrow> renderedTrajectories s = []" for s
    by (simp add: renderedTrajectories_def shouldRenderTrajectories_def)
  have reach: "currentZoom (run es mounted) < DISPLAY_ZOOM_THRESHOLD \<longrightarrow>
      hoveredLogId (run es mounted) = None"
    using hover_gate_run [of es] by (simp add: shouldRenderTrajectories_def)
  have fall: "DISPLAY_ZOOM_THRESHOLD \<le> currentZoom s0 \<and> z < DISPLAY_ZOOM_THRESHOLD \<longrightarrow>
      currentZoom (fire (ZoomChange z) s0) = z \<and>
      hoveredLogId (fire (ZoomChange z) s0) = None \<and>
      renderedTrajectories (fire (ZoomChange z) s0) = []"
    by (simp add: handleZoom_def hoverEffect_def shouldRenderTrajectories_def
        renderedTrajectories_def Let_def)
  have def: "shouldRenderTrajectories s0 = (currentZoom s0 \<ge> 14)"
    by (simp add: shouldRenderTrajectories_def DISPLAY_ZOOM_THRESHOLD_def)
  show ?thesis
    using gate [of s0] gate [of "run es mounted"] reach fall def by blast
qed

theorem render_gating_witness:
  "hoveredLogId (run (bothShown @ [MouseOver ''A'']) mounted) = Some ''A'' \<and>
   map layer_logId (renderedTrajectories (run (bothShown @ [MouseOver ''A'']) mounted)) =
     [''A'', ''B''] \<and>
   DISPLAY_ZOOM_THRESHOLD \<le> currentZoom (run (bothShown @ [MouseOver ''A'']) mounted) \<and>
   (13.5 :: real) < DISPLAY_ZOOM_THRESHOLD \<and>
   currentZoom (run (bothShown @ [MouseOver ''A'', ZoomChange 13.5, MouseOver ''A'']) mounted)
     < DISPLAY_ZOOM_THRESHOLD \<and>
   activeLogs (run (bothShown @ [MouseOver ''A'', ZoomChange 13.5, MouseOver ''A'']) mounted) =
     [''A'', ''B''] \<and>
   hoveredLogId (fire (ZoomChange 13.5) (run (bothShown @ [MouseOver ''A'']) mounted)) = None \<and>
   renderedTrajectories
     (run (bothShown @ [MouseOver ''A'', ZoomChange 13.5, MouseOver ''A'']) mounted) = [] \<and>
   hoveredLogId
     (run (bothShown @ [MouseOver ''A'', ZoomChange 13.5, MouseOver ''A'']) mounted) = None \<and>
   currentZoom (run (bothShown @ [MouseOver ''A'', ZoomChange 13.5]) mounted)
     < DISPLAY_ZOOM_THRESHOLD \<and>
   renderedTrajectories (run (bothShown @ [MouseOver ''A'', ZoomChange 13.5]) mounted) = []"
  using render_gating [of "run (bothShown @ [MouseOver ''A'']) mounted"
      "bothShown @ [MouseOver ''A'', ZoomChange 13.5, MouseOver ''A'']" "13.5"]
    render_gating [of "run (bothShown @ [MouseOver ''A'', ZoomChange 13.5]) mounted"
      "bothShown @ [MouseOver ''A'', ZoomChange 13.5, MouseOver ''A'']" "13.5"]
  by (simp add: example_defs eval_defs COLORS_def)

section \<open>The catalog service\<close>

text \<open>
  The service of the spec never names \<open>0\<close> as the next offset when it is asked for pages of
  positive size, as the component does (\<^verbatim>\<open>LOGS_PAGE_SIZE\<close>).
\<close>

lemma listPage_server_ok:
  assumes "0 < limit"
  shows "server_ok (LogsResolved offset (listPage catalog offset limit))"
proof -
  have "catalog = []" if "offset + length (take limit (drop offset catalog)) = 0"
    using that assms by (cases catalog) auto
  then show ?thesis
    using assms by (auto simp: server_ok_def listPage_def Let_def)
qed

lemma listPage_page_size_ok:
  "server_ok (LogsResolved offset (listPage catalog offset LOGS_PAGE_SIZE))"
  by (rule listPage_server_ok) (simp add: LOGS_PAGE_SIZE_def)

text \<open>
  The scenario of the spec: a catalogue \<open>[X, Y, Z]\<close> served in pages of two. The first page
  is \<open>[X, Y]\<close> with next offset \<open>2\<close>, the second is \<open>[Z]\<close> with none, and the merged order is
  \<open>[X, Y, Z]\<close>.
\<close>

lemma scenario_three_logs:
  "listPage [\<lparr>log_id = ''X'', num_points = None, bounds = None\<rparr>,
             \<lparr>log_id = ''Y'', num_points = None, bounds = None\<rparr>,
             \<lparr>log_id = ''Z'', num_points = None, bounds = None\<rparr>] 0 2 =
     \<lparr>items = [\<lparr>log_id = ''X'', num_points = None, bounds = None\<rparr>,
               \<lparr>log_id = ''Y'', num_points = None, bounds = None\<rparr>],
      total = 3, next_offset = Some 2\<rparr> \<and>
   listPage [\<lparr>log_id = ''X'', num_points = None, bounds = None\<rparr>,
             \<lparr>log_id = ''Y'', num_points = None, bounds = None\<rparr>,
             \<lparr>log_id = ''Z'', num_points = None, bounds = None\<rparr>] 2 2 =
     \<lparr>items = [\<lparr>log_id = ''Z'', num_points = None, bounds = None\<rparr>],
      total = 3, next_offset = None\<rparr> \<and>
   logOrder (run
     [LogsResolved 0
        \<lparr>items = [\<lparr>log_id = ''X'', num_points = None, bounds = None\<rparr>,
                  \<lparr>log_id = ''Y'', num_points = None, bounds = None\<rparr>],
         total = 3, next_offset = Some 2\<rparr>,
      PanelToggle, LoadMoreClick,
      LogsResolved 2
        \<lparr>items = [\<lparr>log_id = ''Z'', num_points = None, bounds = None\<rparr>],
         total = 3, next_offset = None\<rparr>] mounted) = [''X'', ''Y'', ''Z'']"
  by (simp add: listPage_def eval_defs)

section \<open>The catalogue invariant\<close>

lemma inv_catalogD:
  assumes "inv_catalog s"
  shows "\<And>k v. map_of (logState s) k = Some v \<Longrightarrow> log_id (summary v) = k"
    and "set (activeLogs s) \<subseteq> set (logOrder s)"
    and "nextOffset s = Some 0 \<Longrightarrow>
           logState s = [] \<and> logOrder s = [] \<and> pendingDetail s = [] \<and>
           pendingLogs s = (if isLoadingSummaries s then [0] else [])"
    and "nextOffset s \<noteq> Some 0 \<Longrightarrow> 0 \<notin> set (pendingLogs s)"
    and "distinct (pendingDetail s)"
    and "\<And>lid. lid \<in> set (pendingDetail s) \<Longrightarrow>
           \<exists>entry. map_of (logState s) lid = Some entry \<and> loading entry \<and> detail entry = None"
  using assms unfolding inv_catalog_def by blast+

lemma inv_catalogI:
  assumes "\<And>k v. map_of (logState s) k = Some v \<Longrightarrow> log_id (summary v) = k"
    and "set (activeLogs s) \<subseteq> set (logOrder s)"
    and "nextOffset s = Some 0 \<Longrightarrow>
           logState s = [] \<and> logOrder s = [] \<and> pendingDetail s = [] \<and>
           pendingLogs s = (if isLoadingSummaries s then [0] else [])"
    and "nextOffset s \<noteq> Some 0 \<Longrightarrow> 0 \<notin> set (pendingLogs s)"
    and "distinct (pendingDetail s)"
    and "\<And>lid. lid \<in> set (pendingDetail s) \<Longrightarrow>
           \<exists>entry. map_of (logState s) lid = Some entry \<and> loading entry \<and> detail entry = None"
  shows "inv_catalog s"
  using assms unfolding inv_catalog_def by blast

lemma inv_catalog_mounted: "inv_catalog mounted"
  by (simp add: inv_catalog_def mounted_eq initialState_def)

lemma inv_catalog_update [simp]:
  "inv_catalog (s\<lparr>app_error := x1\<rparr>) = inv_catalog s"
  "inv_catalog (s\<lparr>isLoadingMore := x2\<rparr>) = inv_catalog s"
  "inv_catalog (s\<lparr>totalLogs := x3\<rparr>) = inv_catalog s"
  "inv_catalog (s\<lparr>panelOpen := x4\<rparr>) = inv_catalog s"
  "inv_catalog (s\<lparr>lastActivatedLog := x5\<rparr>) = inv_catalog s"
  "inv_catalog (s\<lparr>currentZoom := x6\<rparr>) = inv_catalog s"
  "inv_catalog (s\<lparr>hoveredLogId := x7\<rparr>) = inv_catalog s"
  "inv_catalog (s\<lparr>isPreviewOpen := x8\<rparr>) = inv_catalog s"
  "inv_catalog (s\<lparr>previewState := x9\<rparr>) = inv_catalog s"
  "inv_catalog (s\<lparr>previewImageUrlRef := x10\<rparr>) = inv_catalog s"
  "inv_catalog (s\<lparr>previewRequestIdRef := x11\<rparr>) = inv_catalog s"
  "inv_catalog (s\<lparr>revokedUrls := x12\<rparr>) = inv_catalog s"
  "inv_catalog (s\<lparr>fetchLogDetailCalls := x13\<rparr>) = inv_catalog s"
  "inv_catalog (s\<lparr>pendingImage := x14\<rparr>) = inv_catalog s"
  by (simp_all add: inv_catalog_def)

lemma inv_catalog_closePreview [simp]: "inv_catalog (closePreview s) = inv_catalog s"
  by (simp add: closePreview_def releaseHeld_def revokeObjectURL_def split: option.split)

lemma keys_fold_mergeItem_summary:
  assumes "\<And>k v. map_of base k = Some v \<Longrightarrow> log_id (summary v) = k"
  shows "map_of (fold mergeItem its base) k = Some v \<Longrightarrow> log_id (summary v) = k"
  using assms
proof (induction its arbitrary: base)
  case Nil
  then show ?case by simp
next
  case (Cons lg its)
  have "\<And>k v. map_of (mergeItem lg base) k = Some v \<Longrightarrow> log_id (summary v) = k"
    using Cons.prems(2) by (auto simp: map_of_mergeItem split: if_splits option.splits)
  from Cons.IH [OF _ this] Cons.prems(1) show ?case by simp
qed

lemma set_mergeLogOrder_more: "set prev \<subseteq> set (mergeLogOrder False its prev)"
  by (simp add: mergeLogOrder_more)

lemma inv_catalog_requestDetail:
  assumes "inv_catalog s"
  shows "inv_catalog (requestDetail lid s)"
proof (cases "map_of (logState s) lid")
  case None
  then show ?thesis using assms by (simp add: requestDetail_def)
next
  case (Some entry)
  note I = inv_catalogD [OF assms]
  show ?thesis
  proof (cases "detail entry \<noteq> None \<or> loading entry")
    case True
    then show ?thesis using assms Some by (auto simp: requestDetail_def)
  next
    case False
    let ?s' = "requestDetail lid s"
    have ls: "logState ?s' = AList.update lid (entry\<lparr>loading := True\<rparr>) (logState s)"
      and pd: "pendingDetail ?s' = pendingDetail s @ [lid]"
      and rest: "activeLogs ?s' = activeLogs s" "logOrder ?s' = logOrder s"
        "nextOffset ?s' = nextOffset s" "pendingLogs ?s' = pendingLogs s"
        "isLoadingSummaries ?s' = isLoadingSummaries s"
      using Some False by (auto simp: requestDetail_def)
    have nonempty: "logState s \<noteq> []"
      using Some by auto
    have fresh: "lid \<notin> set (pendingDetail s)"
      using I(6) [of lid] Some False by auto
    show ?thesis
    proof (rule inv_catalogI)
      fix k v assume "map_of (logState ?s') k = Some v"
      then show "log_id (summary v) = k"
        using I(1) [of k] I(1) [OF Some]
        by (auto simp: ls update_conv' split: if_splits)
    next
      show "set (activeLogs ?s') \<subseteq> set (logOrder ?s')"
        using I(2) by (simp add: rest)
    next
      assume "nextOffset ?s' = Some 0"
      then show "logState ?s' = [] \<and> logOrder ?s' = [] \<and> pendingDetail ?s' = [] \<and>
           pendingLogs ?s' = (if isLoadingSummaries ?s' then [0] else [])"
        using I(3) nonempty by (simp add: rest)
    next
      assume "nextOffset ?s' \<noteq> Some 0"
      then show "0 \<notin> set (pendingLogs ?s')"
        using I(4) by (simp add: rest)
    next
      show "distinct (pendingDetail ?s')"
        using I(5) fresh by (simp add: pd)
    next
      fix l assume "l \<in> set (pendingDetail ?s')"
      then show "\<exists>entry. map_of (logState ?s') l = Some entry \<and> loading entry \<and>
          detail entry = None"
        using I(6) [of l] False by (auto simp: ls pd update_conv')
    qed
  qed
qed

lemma inv_catalog_detailEffect:
  assumes "inv_catalog s"
  shows "inv_catalog (detailEffect s)"
proof -
  have "inv_catalog (fold requestDetail xs s)" for xs
    using assms by (induction xs arbitrary: s) (simp_all add: inv_catalog_requestDetail)
  then show ?thesis by (simp add: detailEffect_def)
qed


lemma set_set_add [simp]: "set (set_add x xs) = insert x (set xs)"
  by (auto simp: set_add_def)

lemma set_new_Set [simp]: "set (new_Set xs) = set xs"
proof -
  have "set (fold set_add xs acc) = set xs \<union> set acc" for acc
    by (induction xs arbitrary: acc) auto
  then show ?thesis by (simp add: new_Set_def)
qed

lemma inv_catalog_activeLogs:
  assumes "inv_catalog s" "set a \<subseteq> set (logOrder s)"
  shows "inv_catalog (s\<lparr>activeLogs := a\<rparr>)"
  using assms by (simp add: inv_catalog_def)

lemma inv_catalog_checkbox:
  assumes "inv_catalog s" "enabled (LogCheckboxChange row b) s"
  shows "inv_catalog (onLogCheckboxChange row b s)"
proof -
  obtain lg where lg: "map_of (logState s) row = Some lg"
    using assms(2) by auto
  have row: "log_id (summary lg) = row" "row \<in> set (logOrder s)"
    using inv_catalogD(1) [OF assms(1) lg] assms(2) by auto
  have sub: "set (activeLogs s) \<subseteq> set (logOrder s)"
    by (rule inv_catalogD(2) [OF assms(1)])
  have "inv_catalog (s\<lparr>activeLogs := set_add row (activeLogs s)\<rparr>)"
    using sub row(2) by (intro inv_catalog_activeLogs [OF assms(1)]) auto
  moreover have "inv_catalog (s\<lparr>activeLogs := set_delete row (activeLogs s)\<rparr>)"
    using sub by (intro inv_catalog_activeLogs [OF assms(1)]) (auto simp: set_delete_def)
  ultimately show ?thesis
    using lg row(1) by (simp add: onLogCheckboxChange_def Let_def)
qed

lemma inv_catalog_selectAll:
  assumes "inv_catalog s"
  shows "inv_catalog (onSelectAllChange b s)"
  using inv_catalog_activeLogs [OF assms, of "new_Set (logOrder s)"]
    inv_catalog_activeLogs [OF assms, of "[]"]
  by (simp add: onSelectAllChange_def)

lemma inv_catalog_logsRejected:
  assumes "inv_catalog s" "enabled (LogsRejected offset msg) s"
  shows "inv_catalog (fire (LogsRejected offset msg) s)"
proof -
  note I = inv_catalogD [OF assms(1)]
  have en: "offset \<in> set (pendingLogs s)"
    using assms(2) by simp
  show ?thesis
  proof (cases "nextOffset s = Some 0")
    case True
    then have "pendingLogs s = [0]" "offset = 0" "isLoadingSummaries s"
      using I(3) en by (auto split: if_splits)
    then show ?thesis
      using assms(1) True
      by (auto simp: inv_catalog_def loadLogs_rejected_def loadLogs_finally_def)
  next
    case False
    then have "0 \<notin> set (remove1 offset (pendingLogs s))"
      using I(4) in_remove1D by fast
    then show ?thesis
      using assms(1) False
      by (simp add: inv_catalog_def loadLogs_rejected_def loadLogs_finally_def)
  qed
qed

lemma inv_catalog_loadMore:
  assumes "inv_catalog s" "enabled LoadMoreClick s"
  shows "inv_catalog (fire LoadMoreClick s)"
proof -
  note I = inv_catalogD [OF assms(1)]
  obtain k where k: "nextOffset s = Some k" and idle: "\<not> isLoadingSummaries s" "\<not> isLoadingMore s"
    using assms(2) by auto
  show ?thesis
  proof (cases "k = 0")
    case True
    then have "pendingLogs s = []"
      using I(3) k idle by simp
    then show ?thesis
      using assms(1) k True idle
      by (auto simp: inv_catalog_def onLoadMoreClick_def loadLogs_begin_def)
  next
    case False
    then show ?thesis
      using assms(1) k idle
      by (simp add: inv_catalog_def onLoadMoreClick_def loadLogs_begin_def)
  qed
qed


lemma inv_catalog_logsResolved:
  assumes "inv_catalog s" "enabled (LogsResolved offset response) s"
    "next_offset response \<noteq> Some 0"
  shows "inv_catalog (fire (LogsResolved offset response) s)"
proof -
  note I = inv_catalogD [OF assms(1)]
  define s' where "s' = fire (LogsResolved offset response) s"
  have en: "offset \<in> set (pendingLogs s)"
    using assms(2) by simp
  have flds: "logState s' = mergeLogState (offset = 0) (items response) (logState s)"
    "logOrder s' = mergeLogOrder (offset = 0) (items response) (logOrder s)"
    "nextOffset s' = next_offset response"
    "pendingLogs s' = remove1 offset (pendingLogs s)"
    "activeLogs s' = activeLogs s" "pendingDetail s' = pendingDetail s"
    by (simp_all add: s'_def loadLogs_resolved_def loadLogs_finally_def)
  have phase0: "nextOffset s = Some 0" if "offset = 0"
    using I(4) en that by auto
  have "inv_catalog s'"
  proof (rule inv_catalogI)
    fix k v assume "map_of (logState s') k = Some v"
    then have "map_of (mergeLogState (offset = 0) (items response) (logState s)) k = Some v"
      by (simp only: flds)
    then show "log_id (summary v) = k"
      using keys_fold_mergeItem_summary [of "logState s" "items response" k v]
        keys_fold_mergeItem_summary [of "[]" "items response" k v] I(1)
      by (auto simp: mergeLogState_def split: if_splits)
  next
    show "set (activeLogs s') \<subseteq> set (logOrder s')"
    proof (cases "offset = 0")
      case True
      then have "activeLogs s = []"
        using I(2) I(3) [OF phase0] by simp
      then show ?thesis by (simp add: flds)
    next
      case False
      then show ?thesis
        using I(2) set_mergeLogOrder_more [of "logOrder s" "items response"]
        by (auto simp: flds)
    qed
  next
    assume "nextOffset s' = Some 0"
    then show "logState s' = [] \<and> logOrder s' = [] \<and> pendingDetail s' = [] \<and>
         pendingLogs s' = (if isLoadingSummaries s' then [0] else [])"
      using assms(3) by (simp add: flds)
  next
    show "0 \<notin> set (pendingLogs s')"
    proof (cases "nextOffset s = Some 0")
      case True
      then have "pendingLogs s = [0]"
        using I(3) en by (auto split: if_splits)
      then show ?thesis using en by (simp add: flds)
    next
      case False
      then show ?thesis
        using I(4) in_remove1D unfolding flds by fast
    qed
  next
    show "distinct (pendingDetail s')"
      using I(5) by (simp add: flds)
  next
    fix lid assume lid: "lid \<in> set (pendingDetail s')"
    then have "nextOffset s \<noteq> Some 0"
      using I(3) by (auto simp: flds)
    then have "offset \<noteq> 0"
      using phase0 by blast
    moreover obtain entry where "map_of (logState s) lid = Some entry" "loading entry"
        "detail entry = None"
      using I(6) [of lid] lid by (auto simp: flds)
    ultimately show "\<exists>entry. map_of (logState s') lid = Some entry \<and> loading entry \<and>
        detail entry = None"
      using map_of_fold_mergeItem_present [of "logState s" lid entry "items response"]
      by (simp add: flds mergeLogState_def)
  qed
  then show ?thesis by (simp only: s'_def)
qed

lemma inv_catalog_detail_settled:
  assumes "inv_catalog s" "lid \<in> set (pendingDetail s)"
    "\<And>st. detail (upd st) = d st \<and> summary (upd st) = summary st \<and> \<not> loading (upd st)"
    "s' = (case map_of (logState s) lid of
             None \<Rightarrow> s\<lparr>pendingDetail := remove1 lid (pendingDetail s)\<rparr>
           | Some st \<Rightarrow> s\<lparr>pendingDetail := remove1 lid (pendingDetail s),
                            logState := AList.update lid (upd st) (logState s)\<rparr>)"
  shows "inv_catalog s'"
proof -
  note I = inv_catalogD [OF assms(1)]
  obtain st where st: "map_of (logState s) lid = Some st"
    using I(6) [OF assms(2)] by auto
  have s': "s' = s\<lparr>pendingDetail := remove1 lid (pendingDetail s),
      logState := AList.update lid (upd st) (logState s)\<rparr>"
    using assms(4) st by simp
  have not0: "nextOffset s \<noteq> Some 0"
    using I(3) assms(2) by auto
  show ?thesis
  proof (rule inv_catalogI)
    fix k v assume "map_of (logState s') k = Some v"
    then show "log_id (summary v) = k"
      using I(1) [of k] I(1) [OF st] assms(3)
      by (auto simp: s' update_conv' split: if_splits)
  next
    show "set (activeLogs s') \<subseteq> set (logOrder s')"
      using I(2) by (simp add: s')
  next
    assume "nextOffset s' = Some 0"
    then show "logState s' = [] \<and> logOrder s' = [] \<and> pendingDetail s' = [] \<and>
         pendingLogs s' = (if isLoadingSummaries s' then [0] else [])"
      using not0 by (simp add: s')
  next
    show "0 \<notin> set (pendingLogs s')"
      using I(4) not0 by (simp add: s')
  next
    show "distinct (pendingDetail s')"
      using I(5) by (simp add: s')
  next
    fix l assume "l \<in> set (pendingDetail s')"
    then have "l \<in> set (pendingDetail s)" "l \<noteq> lid"
      using I(5) by (auto simp: s')
    then show "\<exists>entry. map_of (logState s') l = Some entry \<and> loading entry \<and>
        detail entry = None"
      using I(6) [of l] by (simp add: s' update_conv')
  qed
qed

lemma inv_catalog_detailResolved:
  assumes "inv_catalog s" "enabled (DetailResolved lid d) s"
  shows "inv_catalog (fire (DetailResolved lid d) s)"
  using assms(2)
  by (intro inv_catalog_detail_settled [OF assms(1), of lid
        "\<lambda>st. st\<lparr>detail := Some d, loading := False, error := None\<rparr>" "\<lambda>st. Some d"])
     (simp_all add: detail_resolved_def split: option.split)

lemma inv_catalog_detailRejected:
  assumes "inv_catalog s" "enabled (DetailRejected lid msg) s"
  shows "inv_catalog (fire (DetailRejected lid msg) s)"
  using assms(2)
  by (intro inv_catalog_detail_settled [OF assms(1), of lid
        "\<lambda>st. st\<lparr>loading := False, error := Some msg\<rparr>" "detail"])
     (simp_all add: detail_rejected_def split: option.split)

lemma inv_catalog_fire:
  assumes "inv_catalog s" and "enabled e s" and "server_ok e"
  shows "inv_catalog (fire e s)"
proof (cases e)
  case (LogsResolved offset response)
  then show ?thesis
    using assms inv_catalog_logsResolved by (simp add: server_ok_def)
next
  case (LogsRejected offset msg)
  then show ?thesis using assms inv_catalog_logsRejected by simp
next
  case LoadMoreClick
  then show ?thesis using assms inv_catalog_loadMore by simp
next
  case (LogCheckboxChange row b)
  then show ?thesis
    using assms inv_catalog_checkbox inv_catalog_detailEffect by simp
next
  case (SelectAllChange b)
  then show ?thesis
    using assms inv_catalog_selectAll inv_catalog_detailEffect by simp
next
  case (DetailResolved lid d)
  then show ?thesis using assms inv_catalog_detailResolved by simp
next
  case (DetailRejected lid msg)
  then show ?thesis using assms inv_catalog_detailRejected by simp
next
  case (PolylineClick lid)
  then show ?thesis using assms by (simp add: handlePolylineClick_def Let_def)
next
  case (ImageResolved rid lid url)
  then show ?thesis
    using assms
    by (simp add: image_resolved_def revokeObjectURL_def Let_def split: option.split)
next
  case (ImageRejected rid lid msg)
  then show ?thesis
    using assms
    by (simp add: image_rejected_def releaseHeld_def revokeObjectURL_def split: option.split)
next
  case (ZoomChange z)
  then show ?thesis using assms by (simp add: handleZoom_def hoverEffect_def Let_def)
next
  case (MouseOver lid)
  then show ?thesis using assms by (simp add: onMouseOver_def)
next
  case (MouseOut lid)
  then show ?thesis using assms by (simp add: onMouseOut_def)
qed (use assms in simp_all)

section \<open>Detail fetches are not repeated\<close>

lemma run_invariant_ok:
  assumes "P s" and "\<And>e s. P s \<Longrightarrow> enabled e s \<Longrightarrow> server_ok e \<Longrightarrow> P (fire e s)"
    and "list_all server_ok es"
  shows "P (run es s)"
  using assms(3)
proof (induction es rule: rev_induct)
  case Nil
  show ?case using assms(1) by (simp add: run_def)
next
  case (snoc e es)
  then show ?case using assms(2) by (simp add: run_snoc step_def)
qed

lemma inv_catalog_run:
  assumes "list_all server_ok es"
  shows "inv_catalog (run es mounted)"
  using inv_catalog_mounted inv_catalog_fire assms by (rule run_invariant_ok)

lemma inv_catalog_run_from:
  assumes "inv_catalog s" "list_all server_ok es"
  shows "inv_catalog (run es s)"
  using assms(1) inv_catalog_fire assms(2) by (rule run_invariant_ok)

lemma requestDetail_idle:
  "requestDetail x s =
     (if idle s x then
        s\<lparr>logState := AList.update x ((the (map_of (logState s) x))\<lparr>loading := True\<rparr>) (logState s),
          pendingDetail := pendingDetail s @ [x],
          fetchLogDetailCalls := fetchLogDetailCalls s @ [x]\<rparr>
      else s)"
  by (auto simp: requestDetail_def idle_def split: option.splits)

lemma idle_requestDetail:
  "idle (requestDetail x s) lid = (idle s lid \<and> (x = lid \<longrightarrow> \<not> idle s x))"
proof (cases "idle s x")
  case False
  then show ?thesis by (auto simp: requestDetail_idle)
next
  case True
  then show ?thesis
    by (cases "lid = x") (auto simp: requestDetail_idle idle_def update_conv' split: option.splits)
qed

lemma fold_requestDetail_calls:
  "count_list (fetchLogDetailCalls (fold requestDetail xs s)) lid =
     count_list (fetchLogDetailCalls s) lid + (if lid \<in> set xs \<and> idle s lid then 1 else 0)"
proof (induction xs arbitrary: s)
  case Nil
  show ?case by simp
next
  case (Cons x xs)
  have calls: "count_list (fetchLogDetailCalls (requestDetail x s)) lid =
      count_list (fetchLogDetailCalls s) lid + (if x = lid \<and> idle s lid then 1 else 0)"
    by (simp add: requestDetail_idle)
  show ?case
    using Cons.IH [of "requestDetail x s"] calls
    by (auto simp: idle_requestDetail)
qed

lemma fold_requestDetail_pending:
  "set (pendingDetail (fold requestDetail xs s)) =
     set (pendingDetail s) \<union> {x \<in> set xs. idle s x}"
proof (induction xs arbitrary: s)
  case Nil
  show ?case by simp
next
  case (Cons x xs)
  have pend: "set (pendingDetail (requestDetail x s)) =
      set (pendingDetail s) \<union> (if idle s x then {x} else {})"
    by (simp add: requestDetail_idle)
  show ?case
    using Cons.IH [of "requestDetail x s"] pend
    by (auto simp: idle_requestDetail)
qed

lemma distinct_count_list: "distinct xs \<Longrightarrow> x \<in> set xs \<Longrightarrow> count_list xs x = 1"
  by (induction xs) auto


lemma toggle_fields:
  "logState (onLogCheckboxChange row b s) = logState s"
  "pendingDetail (onLogCheckboxChange row b s) = pendingDetail s"
  "fetchLogDetailCalls (onLogCheckboxChange row b s) = fetchLogDetailCalls s"
  "logState (onSelectAllChange b s) = logState s"
  "pendingDetail (onSelectAllChange b s) = pendingDetail s"
  "fetchLogDetailCalls (onSelectAllChange b s) = fetchLogDetailCalls s"
  by (simp_all add: onLogCheckboxChange_def onSelectAllChange_def Let_def closePreview_def
      releaseHeld_def revokeObjectURL_def split: option.split)

lemma idle_cong: "logState s' = logState s \<Longrightarrow> idle s' lid = idle s lid"
  by (simp add: idle_def)

lemma detailEffect_calls:
  "count_list (fetchLogDetailCalls (detailEffect s)) lid =
     count_list (fetchLogDetailCalls s) lid +
       (if lid \<in> set (activeLogs s) \<and> idle s lid then 1 else 0)"
  by (simp add: detailEffect_def fold_requestDetail_calls)

lemma detailEffect_pending:
  "set (pendingDetail (detailEffect s)) =
     set (pendingDetail s) \<union> {x \<in> set (activeLogs s). idle s x}"
  by (simp add: detailEffect_def fold_requestDetail_pending)

lemma calls_fire:
  "count_list (fetchLogDetailCalls (fire e s)) lid =
     count_list (fetchLogDetailCalls s) lid +
       (case e of
          LogCheckboxChange row b \<Rightarrow>
            if lid \<in> set (activeLogs (onLogCheckboxChange row b s)) \<and> idle s lid then 1 else 0
        | SelectAllChange b \<Rightarrow>
            if lid \<in> set (activeLogs (onSelectAllChange b s)) \<and> idle s lid then 1 else 0
        | _ \<Rightarrow> 0)"
proof (cases e)
  case (LogCheckboxChange row b)
  then show ?thesis
    by (simp add: detailEffect_calls toggle_fields
        idle_cong [of "onLogCheckboxChange row b s" s])
next
  case (SelectAllChange b)
  then show ?thesis
    by (simp add: detailEffect_calls toggle_fields idle_cong [of "onSelectAllChange b s" s])
qed (simp_all add: handler_defs Let_def split: option.split)

lemma pending_fire:
  assumes "lid \<in> set (pendingDetail s)" "\<not> settlesDetail lid e"
  shows "lid \<in> set (pendingDetail (fire e s))"
proof (cases e)
  case (LogCheckboxChange row b)
  then show ?thesis using assms(1) by (simp add: detailEffect_pending toggle_fields)
next
  case (SelectAllChange b)
  then show ?thesis using assms(1) by (simp add: detailEffect_pending toggle_fields)
next
  case (DetailResolved l d)
  then show ?thesis
    using assms by (simp add: settlesDetail_def detail_resolved_def split: option.split)
next
  case (DetailRejected l msg)
  then show ?thesis
    using assms by (simp add: settlesDetail_def detail_rejected_def split: option.split)
qed (use assms(1) in \<open>simp_all add: handler_defs Let_def split: option.split\<close>)

lemma pending_not_idle:
  assumes "inv_catalog s" "lid \<in> set (pendingDetail s)"
  shows "\<not> idle s lid"
  using inv_catalogD(6) [OF assms] by (auto simp: idle_def)

text \<open>While a detail fetch for an identifier is open, no event calls for another.\<close>

lemma in_flight_run:
  assumes "inv_catalog s" "lid \<in> set (pendingDetail s)" "list_all server_ok es"
    "list_all (\<lambda>e. \<not> settlesDetail lid e) es"
  shows "inv_catalog (run es s) \<and> lid \<in> set (pendingDetail (run es s)) \<and>
    count_list (fetchLogDetailCalls (run es s)) lid = count_list (fetchLogDetailCalls s) lid"
  using assms(3,4)
proof (induction es rule: rev_induct)
  case Nil
  show ?case using assms(1,2) by (simp add: run_def)
next
  case (snoc e es)
  let ?t = "run es s"
  have IH: "inv_catalog ?t" "lid \<in> set (pendingDetail ?t)"
    "count_list (fetchLogDetailCalls ?t) lid = count_list (fetchLogDetailCalls s) lid"
    using snoc by simp_all
  have e: "server_ok e" "\<not> settlesDetail lid e"
    using snoc.prems by simp_all
  show ?case
  proof (cases "enabled e ?t")
    case False
    then show ?thesis using IH by (simp add: run_snoc step_def)
  next
    case True
    have "count_list (fetchLogDetailCalls (fire e ?t)) lid =
        count_list (fetchLogDetailCalls ?t) lid"
      using pending_not_idle [OF IH(1,2)] by (simp add: calls_fire split: event.split)
    then show ?thesis
      using True IH inv_catalog_fire [OF IH(1) True e(1)] pending_fire [OF IH(2) e(2)]
      by (simp add: run_snoc step_def)
  qed
qed


text \<open>
  C4, with the condition it needs. The updater that the effect on the selection queues for
  an identifier returns the state as it is when the record has its detail or is loading (or
  is missing), so it calls \<^verbatim>\<open>fetchLogDetail\<close> only for a record without detail that is not
  loading, and then once: applied again it does nothing. In every run in which the catalog
  service never names \<open>0\<close> as the next offset, no two open detail fetches are for the same
  identifier, and every identifier with an open fetch has a loading record; while the fetch
  of an identifier is open, whatever else happens, \<^verbatim>\<open>fetchLogDetail\<close> is not called for it
  again; and ticking the checkbox of an identifier whose record has no detail and is not
  loading, followed by any events that do not settle its fetch (ticking it again among
  them), makes exactly one call of \<^verbatim>\<open>fetchLogDetail\<close> for it.
\<close>

theorem detail_fetch_dedup:
  "(\<forall>entry. map_of (logState s0) lid = Some entry \<and> (detail entry \<noteq> None \<or> loading entry) \<longrightarrow>
      requestDetail lid s0 = s0) \<and>
   (\<forall>entry. map_of (logState s0) lid = Some entry \<and> detail entry = None \<and> \<not> loading entry \<longrightarrow>
      fetchLogDetailCalls (requestDetail lid s0) = fetchLogDetailCalls s0 @ [lid] \<and>
      pendingDetail (requestDetail lid s0) = pendingDetail s0 @ [lid] \<and>
      map_of (logState (requestDetail lid s0)) lid = Some (entry\<lparr>loading := True\<rparr>) \<and>
      requestDetail lid (requestDetail lid s0) = requestDetail lid s0) \<and>
   (list_all server_ok es \<longrightarrow>
      distinct (pendingDetail (run es mounted)) \<and>
      (\<forall>l \<in> set (pendingDetail (run es mounted)).
         \<exists>entry. map_of (logState (run es mounted)) l = Some entry \<and> loading entry \<and>
           detail entry = None)) \<and>
   (list_all server_ok es \<and> list_all server_ok es' \<and>
    list_all (\<lambda>e. \<not> settlesDetail lid e) es' \<and>
    lid \<in> set (pendingDetail (run es mounted)) \<longrightarrow>
      count_list (fetchLogDetailCalls (run es' (run es mounted))) lid =
        count_list (fetchLogDetailCalls (run es mounted)) lid \<and>
      count_list (pendingDetail (run es' (run es mounted))) lid = 1) \<and>
   (list_all server_ok es \<and> list_all server_ok es' \<and>
    list_all (\<lambda>e. \<not> settlesDetail lid e) es' \<and>
    enabled (LogCheckboxChange lid True) (run es mounted) \<and>
    (\<exists>entry. map_of (logState (run es mounted)) lid = Some entry \<and> detail entry = None \<and>
       \<not> loading entry) \<longrightarrow>
      count_list (fetchLogDetailCalls
          (run es' (fire (LogCheckboxChange lid True) (run es mounted)))) lid =
        count_list (fetchLogDetailCalls (run es mounted)) lid + 1 \<and>
      count_list (pendingDetail
          (run es' (fire (LogCheckboxChange lid True) (run es mounted)))) lid = 1)"
proof -
  let ?s = "run es mounted"
  have skip: "\<forall>entry. map_of (logState s0) lid = Some entry \<and>
      (detail entry \<noteq> None \<or> loading entry) \<longrightarrow> requestDetail lid s0 = s0"
    by (auto simp: requestDetail_def)
  have issue: "\<forall>entry. map_of (logState s0) lid = Some entry \<and> detail entry = None \<and>
      \<not> loading entry \<longrightarrow>
      fetchLogDetailCalls (requestDetail lid s0) = fetchLogDetailCalls s0 @ [lid] \<and>
      pendingDetail (requestDetail lid s0) = pendingDetail s0 @ [lid] \<and>
      map_of (logState (requestDetail lid s0)) lid = Some (entry\<lparr>loading := True\<rparr>) \<and>
      requestDetail lid (requestDetail lid s0) = requestDetail lid s0"
  proof (intro allI impI)
    fix entry
    assume e: "map_of (logState s0) lid = Some entry \<and> detail entry = None \<and> \<not> loading entry"
    have r: "requestDetail lid s0 =
        s0\<lparr>logState := AList.update lid (entry\<lparr>loading := True\<rparr>) (logState s0),
           pendingDetail := pendingDetail s0 @ [lid],
           fetchLogDetailCalls := fetchLogDetailCalls s0 @ [lid]\<rparr>"
      using e by (simp add: requestDetail_def)
    have m: "map_of (logState (requestDetail lid s0)) lid = Some (entry\<lparr>loading := True\<rparr>)"
      by (simp add: r update_conv')
    have again: "requestDetail lid (requestDetail lid s0) = requestDetail lid s0"
      by (subst requestDetail_def) (simp add: m)
    show "fetchLogDetailCalls (requestDetail lid s0) = fetchLogDetailCalls s0 @ [lid] \<and>
      pendingDetail (requestDetail lid s0) = pendingDetail s0 @ [lid] \<and>
      map_of (logState (requestDetail lid s0)) lid = Some (entry\<lparr>loading := True\<rparr>) \<and>
      requestDetail lid (requestDetail lid s0) = requestDetail lid s0"
      using m again by (simp add: r)
  qed
  have reach: "distinct (pendingDetail ?s) \<and>
      (\<forall>l \<in> set (pendingDetail ?s).
         \<exists>entry. map_of (logState ?s) l = Some entry \<and> loading entry \<and> detail entry = None)"
    if "list_all server_ok es"
    using inv_catalogD(5,6) [OF inv_catalog_run [OF that]] by blast
  have flight: "count_list (fetchLogDetailCalls (run es' t)) lid =
        count_list (fetchLogDetailCalls t) lid \<and>
      count_list (pendingDetail (run es' t)) lid = 1"
    if "inv_catalog t" "lid \<in> set (pendingDetail t)" "list_all server_ok es'"
      "list_all (\<lambda>e. \<not> settlesDetail lid e) es'" for t
  proof -
    note R = in_flight_run [OF that]
    have "distinct (pendingDetail (run es' t))"
      using R inv_catalogD(5) by blast
    then show ?thesis
      using R distinct_count_list [of "pendingDetail (run es' t)" lid] by simp
  qed
  have open_fetch: "count_list (fetchLogDetailCalls (run es' ?s)) lid =
        count_list (fetchLogDetailCalls ?s) lid \<and>
      count_list (pendingDetail (run es' ?s)) lid = 1"
    if "list_all server_ok es" "list_all server_ok es'"
      "list_all (\<lambda>e. \<not> settlesDetail lid e) es'" "lid \<in> set (pendingDetail ?s)"
    using flight [OF inv_catalog_run [OF that(1)] that(4) that(2) that(3)] .
  have activation: "count_list (fetchLogDetailCalls
          (run es' (fire (LogCheckboxChange lid True) ?s))) lid =
        count_list (fetchLogDetailCalls ?s) lid + 1 \<and>
      count_list (pendingDetail (run es' (fire (LogCheckboxChange lid True) ?s))) lid = 1"
    if ok: "list_all server_ok es" "list_all server_ok es'"
      "list_all (\<lambda>e. \<not> settlesDetail lid e) es'"
      and en: "enabled (LogCheckboxChange lid True) ?s"
      and ent: "\<exists>entry. map_of (logState ?s) lid = Some entry \<and> detail entry = None \<and>
        \<not> loading entry"
  proof -
    let ?h = "onLogCheckboxChange lid True ?s"
    let ?t = "fire (LogCheckboxChange lid True) ?s"
    have inv: "inv_catalog ?s"
      by (rule inv_catalog_run [OF ok(1)])
    obtain entry where entry: "map_of (logState ?s) lid = Some entry"
      using ent by blast
    have "log_id (summary entry) = lid"
      by (rule inv_catalogD(1) [OF inv entry])
    then have act: "lid \<in> set (activeLogs ?h)"
      using entry by (simp add: onLogCheckboxChange_def Let_def)
    have idl: "idle ?s lid"
      using ent by (auto simp: idle_def)
    have calls: "count_list (fetchLogDetailCalls ?t) lid =
        count_list (fetchLogDetailCalls ?s) lid + 1"
      using calls_fire [of "LogCheckboxChange lid True" ?s lid] act idl by simp
    have "idle ?h lid"
      using idl by (simp add: idle_cong [of ?h ?s] toggle_fields)
    then have pend: "lid \<in> set (pendingDetail ?t)"
      using act by (simp add: detailEffect_pending)
    have "inv_catalog ?t"
      using inv en by (rule inv_catalog_fire) (simp add: server_ok_def)
    from flight [OF this pend ok(2,3)] calls show ?thesis by simp
  qed
  show ?thesis
    using skip issue reach open_fetch activation by blast
qed


theorem detail_fetch_dedup_witness:
  "list_all server_ok [LogsResolved 0 firstPage, PanelToggle] \<and>
   list_all server_ok
     [LogCheckboxChange ''A'' False, LogCheckboxChange ''A'' True, LogCheckboxChange ''B'' True] \<and>
   list_all (\<lambda>e. \<not> settlesDetail ''A'' e)
     [LogCheckboxChange ''A'' False, LogCheckboxChange ''A'' True, LogCheckboxChange ''B'' True] \<and>
   enabled (LogCheckboxChange ''A'' True) (run [LogsResolved 0 firstPage, PanelToggle] mounted) \<and>
   map_of (logState (run [LogsResolved 0 firstPage, PanelToggle] mounted)) ''A'' =
     Some \<lparr>summary = itemA, detail = None, loading = False, error = None\<rparr> \<and>
   fetchLogDetailCalls (run [LogsResolved 0 firstPage, PanelToggle] mounted) = [] \<and>
   fetchLogDetailCalls
     (run [LogCheckboxChange ''A'' False, LogCheckboxChange ''A'' True, LogCheckboxChange ''B'' True]
        (fire (LogCheckboxChange ''A'' True)
           (run [LogsResolved 0 firstPage, PanelToggle] mounted))) = [''A'', ''B''] \<and>
   count_list (fetchLogDetailCalls
     (run [LogCheckboxChange ''A'' False, LogCheckboxChange ''A'' True, LogCheckboxChange ''B'' True]
        (fire (LogCheckboxChange ''A'' True)
           (run [LogsResolved 0 firstPage, PanelToggle] mounted)))) ''A'' = 1 \<and>
   list_all server_ok [LogsResolved 0 firstPage, PanelToggle, LogCheckboxChange ''A'' True] \<and>
   ''A'' \<in> set (pendingDetail
     (run [LogsResolved 0 firstPage, PanelToggle, LogCheckboxChange ''A'' True] mounted)) \<and>
   map_of (logState
     (run [LogsResolved 0 firstPage, PanelToggle, LogCheckboxChange ''A'' True] mounted)) ''A'' =
     Some \<lparr>summary = itemA, detail = None, loading = True, error = None\<rparr> \<and>
   requestDetail ''A''
     (run [LogsResolved 0 firstPage, PanelToggle, LogCheckboxChange ''A'' True] mounted) =
     run [LogsResolved 0 firstPage, PanelToggle, LogCheckboxChange ''A'' True] mounted \<and>
   pendingDetail
     (run [LogCheckboxChange ''A'' False, LogCheckboxChange ''A'' True, LogCheckboxChange ''B'' True]
        (run [LogsResolved 0 firstPage, PanelToggle, LogCheckboxChange ''A'' True] mounted)) =
     [''A'', ''B'']"
  using detail_fetch_dedup [of "run [LogsResolved 0 firstPage, PanelToggle] mounted" "''A''"
      "[LogsResolved 0 firstPage, PanelToggle]"
      "[LogCheckboxChange ''A'' False, LogCheckboxChange ''A'' True, LogCheckboxChange ''B'' True]"]
    detail_fetch_dedup [of
      "run [LogsResolved 0 firstPage, PanelToggle, LogCheckboxChange ''A'' True] mounted" "''A''"
      "[LogsResolved 0 firstPage, PanelToggle, LogCheckboxChange ''A'' True]"
      "[LogCheckboxChange ''A'' False, LogCheckboxChange ''A'' True, LogCheckboxChange ''B'' True]"]
  by (simp add: example_defs eval_defs server_ok_def settlesDetail_def)

text \<open>
  Without the condition, C4 fails. The first page's answer names \<open>0\<close> as the next offset;
  \<open>A\<close> is ticked and its detail fetch is open; the load-more button calls \<^verbatim>\<open>loadLogs(0)\<close>,
  whose answer replaces the records by fresh ones, so the record of \<open>A\<close> is no longer
  loading; ticking \<open>B\<close> makes the effect walk the selection, and it calls
  \<^verbatim>\<open>fetchLogDetail\<close> for \<open>A\<close> a second time while the first call is open. Every event of
  the run is enabled when it happens.
\<close>

theorem detail_fetch_twice_after_reload:
  "all_enabled reloadWhileFetching mounted \<and>
   pendingDetail (run reloadWhileFetching mounted) = [''A'', ''A'', ''B''] \<and>
   fetchLogDetailCalls (run reloadWhileFetching mounted) = [''A'', ''A'', ''B''] \<and>
   \<not> distinct (pendingDetail (run reloadWhileFetching mounted)) \<and>
   \<not> list_all server_ok reloadWhileFetching"
  by (simp add: reload_defs example_defs eval_defs server_ok_def COLORS_def)

section \<open>The preview belongs to the selection\<close>

lemma collectLayers_ids: "set (map layer_logId (collectLayers ls c xs)) \<subseteq> set xs"
  by (induction xs arbitrary: c) (auto split: option.splits)

lemma rendered_active:
  "lid \<in> set (map layer_logId (renderedTrajectories s)) \<Longrightarrow> lid \<in> set (activeLogs s)"
  using collectLayers_ids [of "logState s" 0 "activeLogs s"]
  by (auto simp: renderedTrajectories_def polylineData_def split: if_splits)

text \<open>The session on display belongs to a selected log.\<close>

lemma shown_fire:
  assumes shown: "\<And>p. previewState s = Some p \<Longrightarrow> logId p \<in> set (activeLogs s)"
    and "inv_preview s" "inv_catalog s" "enabled e s"
    and new: "previewState (fire e s) = Some p"
  shows "logId p \<in> set (activeLogs (fire e s))"
proof (cases e)
  case (PolylineClick lid)
  then show ?thesis
    using assms(4) new rendered_active [of lid s]
    by (auto simp: handlePolylineClick_def Let_def)
next
  case (ImageResolved rid lid url)
  have act: "activeLogs (fire e s) = activeLogs s"
    using ImageResolved
    by (simp add: image_resolved_def revokeObjectURL_def Let_def split: option.split)
  show ?thesis
  proof (cases "previewRequestIdRef s = rid")
    case True
    then have "previewState s =
        Some \<lparr>logId = lid, imageUrl = None, preview_loading = True, preview_error = None\<rparr>"
      using inv_previewD(3) [OF assms(2), of lid] assms(4) ImageResolved by simp
    then have "lid \<in> set (activeLogs s)"
      using shown by fastforce
    moreover have "logId p = lid"
      using new True ImageResolved by (auto simp: image_resolved_def Let_def)
    ultimately show ?thesis by (simp add: act)
  next
    case False
    then have "previewState s = Some p"
      using new ImageResolved by (simp add: image_resolved_def revokeObjectURL_def)
    then show ?thesis using shown by (simp add: act)
  qed
next
  case (ImageRejected rid lid msg)
  have act: "activeLogs (fire e s) = activeLogs s"
    using ImageRejected
    by (simp add: image_rejected_def releaseHeld_def revokeObjectURL_def split: option.split)
  show ?thesis
  proof (cases "previewRequestIdRef s = rid")
    case True
    then have "previewState s =
        Some \<lparr>logId = lid, imageUrl = None, preview_loading = True, preview_error = None\<rparr>"
      using inv_previewD(3) [OF assms(2), of lid] assms(4) ImageRejected by simp
    then have "lid \<in> set (activeLogs s)"
      using shown by fastforce
    moreover have "logId p = lid"
      using new True ImageRejected by (auto simp: image_rejected_def)
    ultimately show ?thesis by (simp add: act)
  next
    case False
    then have "previewState s = Some p"
      using new ImageRejected by (simp add: image_rejected_def)
    then show ?thesis using shown by (simp add: act)
  qed
next
  case ClosePreviewClick
  then show ?thesis using new by (simp add: closePreview_fields)
next
  case (LogCheckboxChange row b)
  then obtain lg where lg: "map_of (logState s) row = Some lg"
    using assms(4) by auto
  let ?h = "onLogCheckboxChange row b s"
  have new_h: "previewState ?h = Some p"
    using new LogCheckboxChange by simp
  have "logId p \<in> set (activeLogs ?h)"
  proof (cases b)
    case True
    then have "previewState s = Some p" "set (activeLogs s) \<subseteq> set (activeLogs ?h)"
      using new_h lg by (auto simp: onLogCheckboxChange_def Let_def)
    then show ?thesis using shown by blast
  next
    case False
    then have "previewState s = Some p \<and> logId p \<noteq> log_id (summary lg)"
      using new_h lg
      by (auto simp: onLogCheckboxChange_def Let_def closePreview_fields
          split: if_splits option.splits)
    moreover have "activeLogs ?h = set_delete (log_id (summary lg)) (activeLogs s)"
      using False lg
      by (auto simp: onLogCheckboxChange_def Let_def closePreview_def releaseHeld_def
          revokeObjectURL_def split: option.splits)
    ultimately show ?thesis
      using shown by (simp add: set_delete_def)
  qed
  then show ?thesis using LogCheckboxChange by simp
next
  case (SelectAllChange b)
  let ?h = "onSelectAllChange b s"
  have new_h: "previewState ?h = Some p"
    using new SelectAllChange by simp
  then have b and "previewState s = Some p"
    by (auto simp: onSelectAllChange_def closePreview_fields split: if_splits)
  then have "logId p \<in> set (activeLogs ?h)"
    using shown inv_catalogD(2) [OF assms(3)] by (auto simp: onSelectAllChange_def)
  then show ?thesis using SelectAllChange by simp
qed (use shown new in \<open>auto simp: handler_defs Let_def split: option.splits if_splits\<close>)


lemma closePreview_activeLogs: "activeLogs (closePreview s) = activeLogs s"
  by (simp add: closePreview_def releaseHeld_def revokeObjectURL_def split: option.split)

lemma shown_run:
  assumes "list_all server_ok es"
  shows "inv_preview (run es mounted) \<and> inv_catalog (run es mounted) \<and>
    (\<forall>p. previewState (run es mounted) = Some p \<longrightarrow>
       logId p \<in> set (activeLogs (run es mounted)))"
proof (rule run_invariant_ok [where P = "\<lambda>s. inv_preview s \<and> inv_catalog s \<and>
    (\<forall>p. previewState s = Some p \<longrightarrow> logId p \<in> set (activeLogs s))"])
  show "inv_preview mounted \<and> inv_catalog mounted \<and>
    (\<forall>p. previewState mounted = Some p \<longrightarrow> logId p \<in> set (activeLogs mounted))"
    using inv_preview_mounted inv_catalog_mounted by (simp add: mounted_eq initialState_def)
next
  fix e and s :: AppState
  assume P: "inv_preview s \<and> inv_catalog s \<and>
    (\<forall>p. previewState s = Some p \<longrightarrow> logId p \<in> set (activeLogs s))"
    and e: "enabled e s" "server_ok e"
  have "logId p \<in> set (activeLogs (fire e s))" if "previewState (fire e s) = Some p" for p
    using shown_fire [of s e p] P e(1) that by blast
  then show "inv_preview (fire e s) \<and> inv_catalog (fire e s) \<and>
    (\<forall>p. previewState (fire e s) = Some p \<longrightarrow> logId p \<in> set (activeLogs (fire e s)))"
    using P e inv_preview_fire inv_catalog_fire by blast
next
  show "list_all server_ok es" by (rule assms)
qed

text \<open>
  C10, with the condition it needs. In every run in which the catalog service never names
  \<open>0\<close> as the next offset, whenever there is a preview session its identifier is selected.
  Unticking the checkbox of the identifier on preview removes it from the selection and
  closes the preview: the counter moves on, the session is cleared, the panel closes and the
  held object URL is revoked and forgotten. Unticking the select-all box empties the
  selection and closes the preview in the same way. In the states the component reaches no
  URL is held after either.
\<close>

theorem preview_in_selection:
  "(list_all server_ok es \<longrightarrow>
      (\<forall>p. previewState (run es mounted) = Some p \<longrightarrow>
         logId p \<in> set (activeLogs (run es mounted)))) \<and>
   (\<forall>lg p. map_of (logState s0) row = Some lg \<and> previewState s0 = Some p \<and>
       logId p = log_id (summary lg) \<longrightarrow>
      log_id (summary lg) \<notin> set (activeLogs (fire (LogCheckboxChange row False) s0)) \<and>
      previewState (fire (LogCheckboxChange row False) s0) = None \<and>
      \<not> isPreviewOpen (fire (LogCheckboxChange row False) s0) \<and>
      previewRequestIdRef (fire (LogCheckboxChange row False) s0) = previewRequestIdRef s0 + 1 \<and>
      (\<forall>held. previewImageUrlRef s0 = Some held \<and> held \<noteq> [] \<longrightarrow>
         previewImageUrlRef (fire (LogCheckboxChange row False) s0) = None \<and>
         revokedUrls (fire (LogCheckboxChange row False) s0) = revokedUrls s0 @ [held])) \<and>
   activeLogs (fire (SelectAllChange False) s0) = [] \<and>
   previewState (fire (SelectAllChange False) s0) = None \<and>
   \<not> isPreviewOpen (fire (SelectAllChange False) s0) \<and>
   previewRequestIdRef (fire (SelectAllChange False) s0) = previewRequestIdRef s0 + 1 \<and>
   (\<forall>held. previewImageUrlRef s0 = Some held \<and> held \<noteq> [] \<longrightarrow>
      previewImageUrlRef (fire (SelectAllChange False) s0) = None \<and>
      revokedUrls (fire (SelectAllChange False) s0) = revokedUrls s0 @ [held]) \<and>
   (\<forall>lg p. map_of (logState (run es mounted)) row = Some lg \<and>
       previewState (run es mounted) = Some p \<and> logId p = log_id (summary lg) \<longrightarrow>
      previewImageUrlRef (fire (LogCheckboxChange row False) (run es mounted)) = None) \<and>
   previewImageUrlRef (fire (SelectAllChange False) (run es mounted)) = None"
proof -
  have reach: "list_all server_ok es \<longrightarrow>
      (\<forall>p. previewState (run es mounted) = Some p \<longrightarrow>
         logId p \<in> set (activeLogs (run es mounted)))"
    using shown_run [of es] by blast
  have uncheck_eq: "fire (LogCheckboxChange row False) s =
      detailEffect (closePreview
        (s\<lparr>activeLogs := set_delete (log_id (summary lg)) (activeLogs s),
           lastActivatedLog :=
             (if lastActivatedLog s = Some (log_id (summary lg)) then None
              else lastActivatedLog s),
           hoveredLogId :=
             (if hoveredLogId s = Some (log_id (summary lg)) then None else hoveredLogId s)\<rparr>))"
    if "map_of (logState s) row = Some lg" "previewState s = Some p"
      "logId p = log_id (summary lg)" for s lg p
    using that by (simp add: onLogCheckboxChange_def Let_def)
  have uncheck: "log_id (summary lg) \<notin> set (activeLogs (fire (LogCheckboxChange row False) s0)) \<and>
      previewState (fire (LogCheckboxChange row False) s0) = None \<and>
      \<not> isPreviewOpen (fire (LogCheckboxChange row False) s0) \<and>
      previewRequestIdRef (fire (LogCheckboxChange row False) s0) = previewRequestIdRef s0 + 1 \<and>
      (\<forall>held. previewImageUrlRef s0 = Some held \<and> held \<noteq> [] \<longrightarrow>
         previewImageUrlRef (fire (LogCheckboxChange row False) s0) = None \<and>
         revokedUrls (fire (LogCheckboxChange row False) s0) = revokedUrls s0 @ [held])"
    if "map_of (logState s0) row = Some lg" "previewState s0 = Some p"
      "logId p = log_id (summary lg)" for lg p
    unfolding uncheck_eq [OF that]
    by (simp add: closePreview_fields closePreview_activeLogs set_delete_def)
  have deselect: "activeLogs (fire (SelectAllChange False) s0) = [] \<and>
     previewState (fire (SelectAllChange False) s0) = None \<and>
     \<not> isPreviewOpen (fire (SelectAllChange False) s0) \<and>
     previewRequestIdRef (fire (SelectAllChange False) s0) = previewRequestIdRef s0 + 1 \<and>
     (\<forall>held. previewImageUrlRef s0 = Some held \<and> held \<noteq> [] \<longrightarrow>
        previewImageUrlRef (fire (SelectAllChange False) s0) = None \<and>
        revokedUrls (fire (SelectAllChange False) s0) = revokedUrls s0 @ [held])"
    by (simp add: onSelectAllChange_def closePreview_fields closePreview_activeLogs)
  have held: "previewImageUrlRef (run es mounted) \<noteq> Some []"
    using inv_previewD(4) [OF inv_preview_run] .
  have none1: "previewImageUrlRef (fire (LogCheckboxChange row False) (run es mounted)) = None"
    if "map_of (logState (run es mounted)) row = Some lg"
      "previewState (run es mounted) = Some p" "logId p = log_id (summary lg)" for lg p
    unfolding uncheck_eq [OF that]
    using held by (simp add: closePreview_fields split: option.split)
  have none2: "previewImageUrlRef (fire (SelectAllChange False) (run es mounted)) = None"
    using held by (simp add: onSelectAllChange_def closePreview_fields split: option.split)
  show ?thesis
    using reach uncheck deselect none1 none2 by blast
qed


theorem preview_in_selection_witness:
  "list_all server_ok (bothShown @ [PolylineClick ''A'', ImageResolved 1 ''A'' ''blob:a'']) \<and>
   previewState
     (run (bothShown @ [PolylineClick ''A'', ImageResolved 1 ''A'' ''blob:a'']) mounted) =
     Some \<lparr>logId = ''A'', imageUrl = Some ''blob:a'', preview_loading = False,
           preview_error = None\<rparr> \<and>
   logId \<lparr>logId = ''A'', imageUrl = Some ''blob:a'', preview_loading = False,
          preview_error = None\<rparr> \<in>
     set (activeLogs
       (run (bothShown @ [PolylineClick ''A'', ImageResolved 1 ''A'' ''blob:a'']) mounted)) \<and>
   map_of (logState
     (run (bothShown @ [PolylineClick ''A'', ImageResolved 1 ''A'' ''blob:a'']) mounted)) ''A'' =
     Some \<lparr>summary = itemA, detail = Some detailA, loading = False, error = None\<rparr> \<and>
   logId \<lparr>logId = ''A'', imageUrl = Some ''blob:a'', preview_loading = False,
          preview_error = None\<rparr> =
     log_id (summary \<lparr>summary = itemA, detail = Some detailA, loading = False, error = None\<rparr>) \<and>
   previewImageUrlRef
     (run (bothShown @ [PolylineClick ''A'', ImageResolved 1 ''A'' ''blob:a'']) mounted) =
     Some ''blob:a'' \<and>
   ''blob:a'' \<noteq> [] \<and>
   activeLogs (fire (LogCheckboxChange ''A'' False)
     (run (bothShown @ [PolylineClick ''A'', ImageResolved 1 ''A'' ''blob:a'']) mounted)) =
     [''B''] \<and>
   previewState (fire (LogCheckboxChange ''A'' False)
     (run (bothShown @ [PolylineClick ''A'', ImageResolved 1 ''A'' ''blob:a'']) mounted)) =
     None \<and>
   revokedUrls (fire (LogCheckboxChange ''A'' False)
     (run (bothShown @ [PolylineClick ''A'', ImageResolved 1 ''A'' ''blob:a'']) mounted)) =
     [''blob:a''] \<and>
   previewImageUrlRef (fire (LogCheckboxChange ''A'' False)
     (run (bothShown @ [PolylineClick ''A'', ImageResolved 1 ''A'' ''blob:a'']) mounted)) =
     None \<and>
   revokedUrls (fire (SelectAllChange False)
     (run (bothShown @ [PolylineClick ''A'', ImageResolved 1 ''A'' ''blob:a'']) mounted)) =
     [''blob:a'']"
  using preview_in_selection [of
      "bothShown @ [PolylineClick ''A'', ImageResolved 1 ''A'' ''blob:a'']"
      "run (bothShown @ [PolylineClick ''A'', ImageResolved 1 ''A'' ''blob:a'']) mounted" "''A''"]
  by (simp add: example_defs eval_defs server_ok_def)

text \<open>
  Without the condition, C10 fails. The first page's answer names \<open>0\<close> as the next offset;
  \<open>A\<close> is selected, drawn and clicked, and its image is on preview; the load-more button
  calls \<^verbatim>\<open>loadLogs(0)\<close>, whose answer lists \<open>B\<close> only, so the merged order becomes
  \<open>[B]\<close>; ticking the select-all box sets the selection to the merged order and does not
  close the preview, which still shows \<open>A\<close>. Every event of the run is enabled when it
  happens.
\<close>

theorem preview_outside_selection_after_reload:
  "all_enabled reloadUnderPreview mounted \<and>
   previewState (run reloadUnderPreview mounted) =
     Some \<lparr>logId = ''A'', imageUrl = Some ''blob:a'', preview_loading = False,
           preview_error = None\<rparr> \<and>
   activeLogs (run reloadUnderPreview mounted) = [''B''] \<and>
   ''A'' \<notin> set (activeLogs (run reloadUnderPreview mounted)) \<and>
   \<not> list_all server_ok reloadUnderPreview"
  by (simp add: reload_defs example_defs eval_defs server_ok_def COLORS_def)

section \<open>Failed page loads\<close>

text \<open>
  C7. A failed page load. The \<^verbatim>\<open>catch\<close> and \<^verbatim>\<open>finally\<close> blocks of \<^verbatim>\<open>loadLogs\<close> store the
  failure description in the error banner and lower the loading flag of the request, and
  that is all the failure changes, for the first page as for a later one: the records, the
  merged order, the selection, the total and the next offset are what they were. Nor does the
  start of a request touch them. When the catalog service never names \<open>0\<close> as the next
  offset, a request for the first page is open only while nothing has been loaded, so its
  failure finds no record and an empty order.
\<close>

theorem page_failure_keeps_pages:
  "fire (LogsRejected offset msg) s0 =
     (if offset = 0
      then s0\<lparr>pendingLogs := remove1 offset (pendingLogs s0), app_error := Some msg,
              isLoadingSummaries := False\<rparr>
      else s0\<lparr>pendingLogs := remove1 offset (pendingLogs s0), app_error := Some msg,
              isLoadingMore := False\<rparr>) \<and>
   logState (fire (LogsRejected offset msg) s0) = logState s0 \<and>
   logOrder (fire (LogsRejected offset msg) s0) = logOrder s0 \<and>
   activeLogs (fire (LogsRejected offset msg) s0) = activeLogs s0 \<and>
   totalLogs (fire (LogsRejected offset msg) s0) = totalLogs s0 \<and>
   nextOffset (fire (LogsRejected offset msg) s0) = nextOffset s0 \<and>
   app_error (fire (LogsRejected offset msg) s0) = Some msg \<and>
   logState (loadLogs_begin offset s0) = logState s0 \<and>
   logOrder (loadLogs_begin offset s0) = logOrder s0 \<and>
   activeLogs (loadLogs_begin offset s0) = activeLogs s0 \<and>
   (list_all server_ok es \<and> enabled (LogsRejected 0 msg) (run es mounted) \<longrightarrow>
      logState (run es mounted) = [] \<and> logOrder (run es mounted) = [] \<and>
      activeLogs (run es mounted) = [])"
proof -
  have frame: "fire (LogsRejected offset msg) s0 =
     (if offset = 0
      then s0\<lparr>pendingLogs := remove1 offset (pendingLogs s0), app_error := Some msg,
              isLoadingSummaries := False\<rparr>
      else s0\<lparr>pendingLogs := remove1 offset (pendingLogs s0), app_error := Some msg,
              isLoadingMore := False\<rparr>)"
    by (simp add: loadLogs_rejected_def loadLogs_finally_def)
  have start: "logState (loadLogs_begin offset s0) = logState s0 \<and>
      logOrder (loadLogs_begin offset s0) = logOrder s0 \<and>
      activeLogs (loadLogs_begin offset s0) = activeLogs s0"
    by (simp add: loadLogs_begin_def)
  have unloaded: "list_all server_ok es \<and> enabled (LogsRejected 0 msg) (run es mounted) \<longrightarrow>
      logState (run es mounted) = [] \<and> logOrder (run es mounted) = [] \<and>
      activeLogs (run es mounted) = []"
  proof
    assume a: "list_all server_ok es \<and> enabled (LogsRejected 0 msg) (run es mounted)"
    then have "inv_catalog (run es mounted)"
      using inv_catalog_run by blast
    note I = inv_catalogD [OF this]
    have "nextOffset (run es mounted) = Some 0"
      using I(4) a by auto
    then show "logState (run es mounted) = [] \<and> logOrder (run es mounted) = [] \<and>
      activeLogs (run es mounted) = []"
      using I(2) I(3) by simp
  qed
  have fields: "logState (fire (LogsRejected offset msg) s0) = logState s0 \<and>
      logOrder (fire (LogsRejected offset msg) s0) = logOrder s0 \<and>
      activeLogs (fire (LogsRejected offset msg) s0) = activeLogs s0 \<and>
      totalLogs (fire (LogsRejected offset msg) s0) = totalLogs s0 \<and>
      nextOffset (fire (LogsRejected offset msg) s0) = nextOffset s0 \<and>
      app_error (fire (LogsRejected offset msg) s0) = Some msg"
    by (simp add: loadLogs_rejected_def loadLogs_finally_def)
  show ?thesis
    using frame fields start unloaded by blast
qed

theorem page_failure_keeps_pages_witness:
  "list_all server_ok [PanelToggle] \<and>
   enabled (LogsRejected 0 ''HTTP 500'') (run [PanelToggle] mounted) \<and>
   logState (run [PanelToggle] mounted) = [] \<and>
   app_error (fire (LogsRejected 0 ''HTTP 500'') (run [PanelToggle] mounted)) =
     Some ''HTTP 500'' \<and>
   logOrder (fire (LogsRejected 50 ''HTTP 500'')
     (run (bothShown @ [ZoomChange 12]) mounted)) = [''A'', ''B''] \<and>
   map fst (logState (fire (LogsRejected 50 ''HTTP 500'')
     (run (bothShown @ [ZoomChange 12]) mounted))) = [''A'', ''B'']"
  using page_failure_keeps_pages [of 0 "''HTTP 500''" "run [PanelToggle] mounted" "[PanelToggle]"]
    page_failure_keeps_pages [of 50 "''HTTP 500''" "run (bothShown @ [ZoomChange 12]) mounted"
      "[PanelToggle]"]
  by (simp add: example_defs eval_defs server_ok_def)

end
